theory Spec2Isabelle
  imports Complex_Main "HOL-Library.Multiset" "HOL-Library.Sublist"
begin

section \<open>The FCFS scheduling simulator of \<open>src/app/projects/fcfs/page.tsx\<close>\<close>

text \<open>
  Numbers: the source works on JavaScript numbers that are non-negative integers typed
  into the form (\<open>parseInt\<close> of a string of digits) or sums and differences of those.
  They are modelled as \<open>int\<close>. Strings (process ids, timeline units) are \<open>string\<close>,
  lists of characters with codes below 256.
\<close>

subsection \<open>Data\<close>

text \<open>The parameter type of \<open>fcfs\<close>: \<open>{ pid: string; arrival: number; burst: number }\<close>.\<close>

record process =
  pid :: string
  arrival :: int
  burst :: int

text \<open>
  \<open>interface ProcessResult\<close>: the three fields above and \<open>completion\<close>, \<open>waiting\<close>,
  \<open>turnaround\<close>. The optional field \<open>remaining\<close> is never written by this file and is
  left out.
\<close>

record process_result = process +
  completion :: int
  waiting :: int
  turnaround :: int

text \<open>The sentinel pushed for an idle unit: the string literal \<open>"IDLE"\<close>.\<close>

definition IDLE :: string where
  "IDLE = ''IDLE''"

text \<open>The three local variables of \<open>fcfs\<close> that the loop updates: \<open>time\<close>, \<open>timeline\<close>, \<open>done\<close>.\<close>

record fcfs_state =
  time :: int
  timeline :: "string list"
  done_acc :: "process_result list"

text \<open>What \<open>fcfs\<close> returns: \<open>{ timeline, results: done }\<close>.\<close>

record fcfs_out =
  out_timeline :: "string list"
  out_results :: "process_result list"

subsection \<open>Sorting with a comparator\<close>

text \<open>
  \<open>Array.prototype.sort(compareFn)\<close> is a stable sort: an element \<open>a\<close> is placed before
  \<open>b\<close> when \<open>compareFn(a, b) < 0\<close>, and elements that compare equal keep their order.
  For a consistent comparator the result of every stable sort is the same list; it is
  computed here by stable insertion.
\<close>

fun insert_by :: "('a \<Rightarrow> 'a \<Rightarrow> int) \<Rightarrow> 'a \<Rightarrow> 'a list \<Rightarrow> 'a list" where
  "insert_by c x [] = [x]"
| "insert_by c x (y # ys) = (if c x y \<le> 0 then x # y # ys else y # insert_by c x ys)"

fun js_sort :: "('a \<Rightarrow> 'a \<Rightarrow> int) \<Rightarrow> 'a list \<Rightarrow> 'a list" where
  "js_sort c [] = []"
| "js_sort c (x # xs) = insert_by c x (js_sort c xs)"

text \<open>
  The comparator of \<open>fcfs\<close>: \<open>a.arrival - b.arrival || a.pid.localeCompare(b.pid)\<close>.
  \<open>||\<close> yields its left operand unless that is \<open>0\<close>. \<open>String.prototype.localeCompare\<close>
  belongs to the host, not to the repository: it is the parameter \<open>localeCompare\<close> of
  the model, a function from two strings to a negative, zero or positive number.
\<close>

definition compare_procs ::
  "(string \<Rightarrow> string \<Rightarrow> int) \<Rightarrow> ('a process_scheme) \<Rightarrow> ('a process_scheme) \<Rightarrow> int" where
  "compare_procs localeCompare a b =
     (if arrival a - arrival b \<noteq> 0 then arrival a - arrival b
      else localeCompare (pid a) (pid b))"

text \<open>
  A consistent comparator to evaluate the model with: lexicographic comparison by
  character code, the order of ids such as \<open>P1\<close>, \<open>P2\<close> that the form generates.
\<close>

fun lex_compare :: "string \<Rightarrow> string \<Rightarrow> int" where
  "lex_compare [] [] = 0"
| "lex_compare [] (y # ys) = -1"
| "lex_compare (x # xs) [] = 1"
| "lex_compare (x # xs) (y # ys) =
     (if (of_char x :: nat) < of_char y then -1
      else if (of_char y :: nat) < of_char x then 1
      else lex_compare xs ys)"

subsection \<open>The scheduler \<open>fcfs\<close>\<close>

text \<open>
  \<open>for (let i = 0; i < n; i++) { timeline.push(x); }\<close> with the counter \<open>i\<close> and the
  bound \<open>n\<close>: the two inner loops of \<open>fcfs\<close>.
\<close>

function push_loop :: "int \<Rightarrow> int \<Rightarrow> string \<Rightarrow> string list \<Rightarrow> string list" where
  "push_loop i n x line = (if i < n then push_loop (i + 1) n x (line @ [x]) else line)"
  by pat_completeness auto
termination
  by (relation "measure (\<lambda>(i, n, x, line). nat (n - i))") auto

declare push_loop.simps [simp del]

text \<open>One iteration of \<open>for (const current of procs)\<close>.\<close>

definition fcfs_step :: "fcfs_state \<Rightarrow> process \<Rightarrow> fcfs_state" where
  "fcfs_step s current =
     (let idle = arrival current > time s;
          timeline1 = (if idle then push_loop 0 (arrival current - time s) IDLE (timeline s)
                       else timeline s);
          startTime = (if idle then arrival current else time s);
          completionTime = startTime + burst current;
          timeline2 = push_loop 0 (burst current) (pid current) timeline1
      in \<lparr> time = completionTime,
           timeline = timeline2,
           done_acc = done_acc s @
             [\<lparr> pid = pid current, arrival = arrival current, burst = burst current,
                completion = completionTime,
                waiting = completionTime - arrival current - burst current,
                turnaround = completionTime - arrival current \<rparr>] \<rparr>)"

definition fcfs_init :: fcfs_state where
  "fcfs_init = \<lparr> time = 0, timeline = [], done_acc = [] \<rparr>"

text \<open>
  \<open>fcfs\<close>: copy every element (\<open>{ ...p }\<close>), sort the copies, run the loop, return the
  timeline and the results.
\<close>

definition sorted_procs :: "(string \<Rightarrow> string \<Rightarrow> int) \<Rightarrow> process list \<Rightarrow> process list" where
  "sorted_procs localeCompare processes =
     js_sort (compare_procs localeCompare) (map (\<lambda>p. p) processes)"

definition fcfs :: "(string \<Rightarrow> string \<Rightarrow> int) \<Rightarrow> process list \<Rightarrow> fcfs_out" where
  "fcfs localeCompare processes =
     (let procs = sorted_procs localeCompare processes;
          s = foldl fcfs_step fcfs_init procs
      in \<lparr> out_timeline = timeline s, out_results = done_acc s \<rparr>)"

subsection \<open>The form and \<open>simulate\<close>\<close>

text \<open>
  A form field has the type \<open>number | ""\<close>: the empty string, a number, or the number
  \<open>NaN\<close> (which \<open>isNaN\<close> looks for).
\<close>

datatype field = Blank | Num int | NaN

text \<open>\<open>interface Process\<close>, one row of the form.\<close>

record form_row =
  row_pid :: string
  row_arrival :: field
  row_burst :: field

definition MAX_TIME_UNIT :: int where
  "MAX_TIME_UNIT = 500"

text \<open>
  The messages given to \<open>setError\<close>, in the order of the source; those built from a
  template carry the \<open>pid\<close> of the row.
  \<^item> \<open>PidEmpty\<close>: "PID cannot be empty for any process."
  \<^item> \<open>Incomplete pid\<close>: "Process pid: Arrival Time and Burst Time must both be filled."
  \<^item> \<open>InvalidNumber pid\<close>: "Process pid: Arrival Time and Burst Time must be valid numbers."
  \<^item> \<open>OutOfRange pid\<close>: "Process pid: Arrival Time must be >= 0 and Burst Time must be >= 1."
  \<^item> \<open>TooLarge pid\<close>: "Process pid: Value too large. Times must be <= 500."
  \<^item> \<open>NoProcess\<close>: "Please define at least one process."
\<close>

datatype sim_error =
  PidEmpty
| Incomplete string
| InvalidNumber string
| OutOfRange string
| TooLarge string
| NoProcess

text \<open>
  The state of the component: \<open>processes\<close>, \<open>results\<close>, \<open>timeline\<close>, \<open>error\<close>. The
  state \<open>error\<close> is a string in the source, \<open>""\<close> when there is none: \<open>None\<close> here.
\<close>

record view =
  st_processes :: "form_row list"
  st_results :: "process_result list option"
  st_timeline :: "string list option"
  st_error :: "sim_error option"

text \<open>
  \<open>String.prototype.trim\<close> removes the white space at both ends. Of the code units
  below 256 these are tab, line feed, vertical tab, form feed, carriage return, space
  and the no-break space.
\<close>

definition is_space :: "char \<Rightarrow> bool" where
  "is_space c = ((of_char c :: nat) \<in> {9, 10, 11, 12, 13, 32, 160})"

definition trim :: "string \<Rightarrow> string" where
  "trim s = rev (dropWhile is_space (rev (dropWhile is_space s)))"

text \<open>\<open>Number(v)\<close> on a field; \<open>None\<close> is \<open>NaN\<close>. \<open>Number("")\<close> is \<open>0\<close>.\<close>

fun Number :: "field \<Rightarrow> int option" where
  "Number Blank = Some 0"
| "Number (Num n) = Some n"
| "Number NaN = None"

text \<open>
  The loop \<open>for (const p of processes)\<close> of \<open>simulate\<close> with its early returns;
  \<open>validProcesses\<close> is the accumulator.
\<close>

fun validate :: "form_row list \<Rightarrow> process list \<Rightarrow> sim_error + process list" where
  "validate [] validProcesses = Inr validProcesses"
| "validate (p # ps) validProcesses =
     (if trim (row_pid p) = [] then Inl PidEmpty
      else if row_arrival p = Blank \<and> row_burst p = Blank then validate ps validProcesses
      else if row_arrival p = Blank \<or> row_burst p = Blank then Inl (Incomplete (row_pid p))
      else (case (Number (row_arrival p), Number (row_burst p)) of
              (Some a, Some b) \<Rightarrow>
                if a < 0 \<or> b \<le> 0 then Inl (OutOfRange (row_pid p))
                else if a > MAX_TIME_UNIT \<or> b > MAX_TIME_UNIT then Inl (TooLarge (row_pid p))
                else validate ps
                       (validProcesses @ [\<lparr> pid = row_pid p, arrival = a, burst = b \<rparr>])
            | _ \<Rightarrow> Inl (InvalidNumber (row_pid p))))"

text \<open>
  \<open>simulate\<close>: clear \<open>error\<close>, \<open>results\<close> and \<open>timeline\<close>, validate, and either set the
  error or run \<open>fcfs\<close> and store its results, sorted by \<open>pid\<close>, and its timeline.
\<close>

definition simulate :: "(string \<Rightarrow> string \<Rightarrow> int) \<Rightarrow> view \<Rightarrow> view" where
  "simulate localeCompare v =
     (let v0 = v\<lparr> st_error := None, st_results := None, st_timeline := None \<rparr>
      in case validate (st_processes v) [] of
           Inl e \<Rightarrow> v0\<lparr> st_error := Some e \<rparr>
         | Inr validProcesses \<Rightarrow>
             if length validProcesses = 0 then v0\<lparr> st_error := Some NoProcess \<rparr>
             else
               (let out = fcfs localeCompare validProcesses
                in v0\<lparr> st_results :=
                         Some (js_sort (\<lambda>a b. localeCompare (pid a) (pid b)) (out_results out)),
                       st_timeline := Some (out_timeline out) \<rparr>))"

subsection \<open>Averages and the compressed timeline\<close>




text \<open>An element of \<open>compressedTimeline\<close>: \<open>{ id: string; duration: number }\<close>.\<close>

record block =
  block_id :: string
  duration :: int

text \<open>The callback of \<open>timeline.reduce\<close>; \<open>acc[acc.length - 1]\<close> is the last block.\<close>

definition compress_step :: "block list \<Rightarrow> string \<Rightarrow> block list" where
  "compress_step acc current =
     (if length acc = 0 \<or> block_id (acc ! (length acc - 1)) \<noteq> current
      then acc @ [\<lparr> block_id = current, duration = 1 \<rparr>]
      else acc[length acc - 1 :=
                 (acc ! (length acc - 1))\<lparr> duration := duration (acc ! (length acc - 1)) + 1 \<rparr>])"

definition compress :: "string list \<Rightarrow> block list" where
  "compress units = foldl compress_step [] units"

definition compressedTimeline :: "string list option \<Rightarrow> block list option" where
  "compressedTimeline tl_state =
     (case tl_state of Some units \<Rightarrow> Some (compress units) | None \<Rightarrow> None)"

text \<open>
  Expanding a block sequence, as the specification words it: each block's id repeated
  \<open>duration\<close> times, in block order.
\<close>

definition expand :: "block list \<Rightarrow> string list" where
  "expand blocks = concat (map (\<lambda>b. replicate (nat (duration b)) (block_id b)) blocks)"

subsection \<open>\<open>fcfs\<close> on a store of objects\<close>

text \<open>
  Arrays and objects are references in JavaScript: \<open>fcfs\<close> receives the address of the
  array \<open>processes\<close>, whose elements are addresses of objects. To state what a call
  leaves unchanged, the same function is modelled on an explicit store. A store is a
  list of cells and an address is an index into it; \<open>new\<close> cells are appended. Strings
  and numbers are values, not references.
\<close>

datatype cell =
  Proc process
| Result process_result
| Refs "nat list"
| Units "string list"
| Out nat nat

type_synonym store = "cell list"

definition read_cell :: "store \<Rightarrow> nat \<Rightarrow> cell option" where
  "read_cell h a = (if a < length h then Some (h ! a) else None)"

definition alloc :: "store \<Rightarrow> cell \<Rightarrow> store \<times> nat" where
  "alloc h c = (h @ [c], length h)"

definition write_cell :: "store \<Rightarrow> nat \<Rightarrow> cell \<Rightarrow> store" where
  "write_cell h a c = h[a := c]"

text \<open>Reading the fields of the object at an address; \<open>None\<close> when there is no such object.\<close>

definition read_proc :: "store \<Rightarrow> nat \<Rightarrow> process option" where
  "read_proc h a = (case read_cell h a of Some (Proc p) \<Rightarrow> Some p | _ \<Rightarrow> None)"

text \<open>\<open>processes.map((p) => ({ ...p }))\<close>: a new object for each element, in a new array.\<close>

fun copy_elements :: "store \<Rightarrow> nat list \<Rightarrow> (store \<times> nat list) option" where
  "copy_elements h [] = Some (h, [])"
| "copy_elements h (a # as) =
     (case read_proc h a of
        None \<Rightarrow> None
      | Some p \<Rightarrow>
          (case alloc h (Proc p) of
             (h1, b) \<Rightarrow>
               (case copy_elements h1 as of
                  None \<Rightarrow> None
                | Some (h2, bs) \<Rightarrow> Some (h2, b # bs))))"

definition map_copy :: "store \<Rightarrow> nat \<Rightarrow> (store \<times> nat) option" where
  "map_copy h arr =
     (case read_cell h arr of
        Some (Refs as) \<Rightarrow>
          (case copy_elements h as of
             None \<Rightarrow> None
           | Some (h1, bs) \<Rightarrow> Some (alloc h1 (Refs bs)))
      | _ \<Rightarrow> None)"

text \<open>The objects behind the elements of an array, each with its address.\<close>

fun read_procs :: "store \<Rightarrow> nat list \<Rightarrow> (nat \<times> process) list option" where
  "read_procs h [] = Some []"
| "read_procs h (a # as) =
     (case read_proc h a of
        None \<Rightarrow> None
      | Some p \<Rightarrow>
          (case read_procs h as of None \<Rightarrow> None | Some ps \<Rightarrow> Some ((a, p) # ps)))"

text \<open>
  \<open>.sort(compareFn)\<close> sorts the array it is called on in place: the cell of the array
  is overwritten with the sorted sequence of the same addresses.
\<close>

definition sort_in_place :: "(string \<Rightarrow> string \<Rightarrow> int) \<Rightarrow> store \<Rightarrow> nat \<Rightarrow> store option" where
  "sort_in_place localeCompare h arr =
     (case read_cell h arr of
        Some (Refs as) \<Rightarrow>
          (case read_procs h as of
             None \<Rightarrow> None
           | Some ps \<Rightarrow>
               Some (write_cell h arr
                 (Refs (map fst
                    (js_sort (\<lambda>x y. compare_procs localeCompare (snd x) (snd y)) ps)))))
      | _ \<Rightarrow> None)"

text \<open>
  One iteration of the loop on the store: \<open>tl_addr\<close> and \<open>done_addr\<close> are the addresses
  of the arrays \<open>timeline\<close> and \<open>done\<close>, \<open>clock\<close> is the local number \<open>time\<close>, \<open>cur\<close> the address of
  \<open>current\<close>. The pushes overwrite the cells of the two arrays; the result pushed on
  \<open>done\<close> is a new object.
\<close>

definition store_step ::
  "nat \<Rightarrow> nat \<Rightarrow> store \<times> int \<Rightarrow> nat \<Rightarrow> (store \<times> int) option" where
  "store_step tl_addr done_addr st cur =
     (case st of (h, clock) \<Rightarrow>
        (case read_proc h cur of
           None \<Rightarrow> None
         | Some current \<Rightarrow>
             (case read_cell h tl_addr of
                Some (Units units) \<Rightarrow>
                  (let idle = arrival current > clock;
                       units1 = (if idle then push_loop 0 (arrival current - clock) IDLE units
                                 else units);
                       startTime = (if idle then arrival current else clock);
                       completionTime = startTime + burst current;
                       units2 = push_loop 0 (burst current) (pid current) units1;
                       h1 = write_cell h tl_addr (Units units2)
                   in case alloc h1
                        (Result \<lparr> pid = pid current, arrival = arrival current,
                                  burst = burst current, completion = completionTime,
                                  waiting = completionTime - arrival current - burst current,
                                  turnaround = completionTime - arrival current \<rparr>) of
                        (h2, r) \<Rightarrow>
                          (case read_cell h2 done_addr of
                             Some (Refs rs) \<Rightarrow>
                               Some (write_cell h2 done_addr (Refs (rs @ [r])), completionTime)
                           | _ \<Rightarrow> None))
              | _ \<Rightarrow> None)))"

fun store_loop ::
  "nat \<Rightarrow> nat \<Rightarrow> store \<times> int \<Rightarrow> nat list \<Rightarrow> (store \<times> int) option" where
  "store_loop tl_addr done_addr st [] = Some st"
| "store_loop tl_addr done_addr st (cur # rest) =
     (case store_step tl_addr done_addr st cur of
        None \<Rightarrow> None
      | Some st' \<Rightarrow> store_loop tl_addr done_addr st' rest)"

text \<open>
  \<open>fcfs\<close> on the store: given the store and the address of \<open>processes\<close>, the store after
  the call and the address of the returned object \<open>{ timeline, results: done }\<close>.
\<close>

definition fcfs_store ::
  "(string \<Rightarrow> string \<Rightarrow> int) \<Rightarrow> store \<Rightarrow> nat \<Rightarrow> (store \<times> nat) option" where
  "fcfs_store localeCompare h processes =
     (case map_copy h processes of
        None \<Rightarrow> None
      | Some (h1, procs) \<Rightarrow>
          (case sort_in_place localeCompare h1 procs of
             None \<Rightarrow> None
           | Some h2 \<Rightarrow>
               (case alloc h2 (Refs []) of
                  (h3, done_addr) \<Rightarrow>
                    (case alloc h3 (Units []) of
                       (h4, tl_addr) \<Rightarrow>
                         (case read_cell h4 procs of
                            Some (Refs cs) \<Rightarrow>
                              (case store_loop tl_addr done_addr (h4, 0) cs of
                                 None \<Rightarrow> None
                               | Some (h5, clock) \<Rightarrow> Some (alloc h5 (Out tl_addr done_addr)))
                          | _ \<Rightarrow> None)))))"

subsection \<open>Notions used to state the properties\<close>

text \<open>
  A valid input of the scheduler, as \<open>simulate\<close> passes it and as the specification
  words it: a non-empty list of processes, each with an arrival time of at least \<open>0\<close>
  and a burst time of at least \<open>1\<close>.
\<close>

definition valid_input :: "process list \<Rightarrow> bool" where
  "valid_input processes =
     (processes \<noteq> [] \<and> (\<forall>p \<in> set processes. 0 \<le> arrival p \<and> 1 \<le> burst p))"

text \<open>The input fields of a result, which \<open>{ ...current }\<close> copied into it.\<close>

definition proc_of :: "process_result \<Rightarrow> process" where
  "proc_of r = \<lparr> pid = pid r, arrival = arrival r, burst = burst r \<rparr>"

text \<open>
  The time units in which the process of a result runs: from its start,
  \<open>completion - burst\<close>, up to but excluding its completion.
\<close>

definition occupies :: "process_result \<Rightarrow> nat \<Rightarrow> bool" where
  "occupies r k = (completion r - burst r \<le> int k \<and> int k < completion r)"



text \<open>
  The invariant of the loop of \<open>fcfs\<close> behind the coverage of the timeline; \<open>P\<close> is the
  set of the ids of the input.
\<close>

definition coverage_inv :: "string set \<Rightarrow> fcfs_state \<Rightarrow> bool" where
  "coverage_inv P s =
     (int (length (timeline s)) = time s \<and>
      (\<forall>r \<in> set (done_acc s). completion r \<le> time s) \<and>
      (done_acc s \<noteq> [] \<longrightarrow> completion (last (done_acc s)) = time s) \<and>
      (\<forall>u \<in> set (timeline s). u = IDLE \<or> u \<in> P) \<and>
      (\<forall>r \<in> set (done_acc s). \<forall>k. occupies r k \<longrightarrow> timeline s ! k = pid r) \<and>
      (\<forall>k < length (timeline s).
         (\<forall>r \<in> set (done_acc s). \<not> occupies r k) \<longrightarrow> timeline s ! k = IDLE) \<and>
      sorted_wrt (\<lambda>r r'. completion r \<le> completion r' - burst r') (done_acc s))"

section \<open>Properties\<close>

subsection \<open>The loops\<close>

lemma push_loop_eq: "push_loop i n x line = line @ replicate (nat (n - i)) x"
proof (induction i n x line rule: push_loop.induct)
  case (1 i n x line)
  show ?case
  proof (cases "i < n")
    case True
    then have "nat (n - i) = Suc (nat (n - (i + 1)))" by simp
    with True "1" show ?thesis
      by (simp add: push_loop.simps [of i n x line] replicate_app_Cons_same)
  next
    case False
    then show ?thesis by (simp add: push_loop.simps [of i n x line])
  qed
qed

lemma step_time: "time (fcfs_step s p) = max (time s) (arrival p) + burst p"
  by (simp add: fcfs_step_def Let_def max_def)

lemma step_timeline:
  "timeline (fcfs_step s p) =
     timeline s @ replicate (nat (arrival p - time s)) IDLE @ replicate (nat (burst p)) (pid p)"
  by (simp add: fcfs_step_def Let_def push_loop_eq)

lemma step_done:
  "done_acc (fcfs_step s p) =
     done_acc s @
       [\<lparr> pid = pid p, arrival = arrival p, burst = burst p,
          completion = max (time s) (arrival p) + burst p,
          waiting = max (time s) (arrival p) - arrival p,
          turnaround = max (time s) (arrival p) + burst p - arrival p \<rparr>]"
  by (simp add: fcfs_step_def Let_def max_def)

text \<open>A property that holds before the loop and is kept by every iteration holds after it.\<close>

lemma foldl_step_invariant:
  assumes "I s" and "\<And>s p. I s \<Longrightarrow> p \<in> set ps \<Longrightarrow> I (fcfs_step s p)"
  shows "I (foldl fcfs_step s ps)"
  using assms by (induction ps arbitrary: s) auto

lemma fcfs_unfold:
  "out_results (fcfs c ps) = done_acc (foldl fcfs_step fcfs_init (sorted_procs c ps))"
  "out_timeline (fcfs c ps) = timeline (foldl fcfs_step fcfs_init (sorted_procs c ps))"
  by (simp_all add: fcfs_def Let_def)

subsection \<open>The sort permutes\<close>

lemma mset_insert_by: "mset (insert_by c x xs) = add_mset x (mset xs)"
  by (induction xs) auto

lemma mset_js_sort: "mset (js_sort c xs) = mset xs"
  by (induction xs) (auto simp: mset_insert_by)

lemma set_js_sort: "set (js_sort c xs) = set xs"
  by (metis mset_js_sort set_mset_mset)

lemma length_js_sort: "length (js_sort c xs) = length xs"
  by (metis mset_js_sort size_mset)

lemma mset_sorted_procs: "mset (sorted_procs c ps) = mset ps"
  by (simp add: sorted_procs_def mset_js_sort)

lemma set_sorted_procs: "set (sorted_procs c ps) = set ps"
  by (simp add: sorted_procs_def set_js_sort)

subsection \<open>Scenarios of the specification, evaluated\<close>

lemma scenario_A:
  "fcfs lex_compare
     [\<lparr>pid = ''P1'', arrival = 0, burst = 5\<rparr>, \<lparr>pid = ''P2'', arrival = 1, burst = 3\<rparr>] =
   \<lparr> out_timeline = [''P1'', ''P1'', ''P1'', ''P1'', ''P1'', ''P2'', ''P2'', ''P2''],
     out_results =
       [\<lparr>pid = ''P1'', arrival = 0, burst = 5, completion = 5, waiting = 0, turnaround = 5\<rparr>,
        \<lparr>pid = ''P2'', arrival = 1, burst = 3, completion = 8, waiting = 4, turnaround = 7\<rparr>] \<rparr>"
  by code_simp

subsection \<open>Per-result invariants\<close>

lemma loop_results_ok:
  "\<forall>r \<in> set (done_acc s). 0 \<le> waiting r \<and> arrival r + burst r \<le> completion r \<and>
       turnaround r = completion r - arrival r \<and> waiting r = turnaround r - burst r
   \<Longrightarrow> \<forall>r \<in> set (done_acc (foldl fcfs_step s ps)). 0 \<le> waiting r \<and>
       arrival r + burst r \<le> completion r \<and>
       turnaround r = completion r - arrival r \<and> waiting r = turnaround r - burst r"
  by (rule foldl_step_invariant) (auto simp: step_done)

text \<open>
  C3. Every result that \<open>fcfs\<close> returns has a waiting time of at least \<open>0\<close>, a completion
  time of at least its arrival time plus its burst time, a turnaround time equal to
  its completion time minus its arrival time, and a waiting time equal to its
  turnaround time minus its burst time. This holds for every input, and so for every
  valid one.
\<close>

theorem fcfs_result_invariants:
  "\<forall>r \<in> set (out_results (fcfs localeCompare processes)).
     0 \<le> waiting r \<and> arrival r + burst r \<le> completion r \<and>
     turnaround r = completion r - arrival r \<and> waiting r = turnaround r - burst r"
  unfolding fcfs_unfold by (rule loop_results_ok) (simp add: fcfs_init_def)

theorem fcfs_result_invariants_witness:
  "\<lparr>pid = ''P2'', arrival = 1, burst = 3, completion = 8, waiting = 4, turnaround = 7\<rparr>
     \<in> set (out_results (fcfs lex_compare
           [\<lparr>pid = ''P1'', arrival = 0, burst = 5\<rparr>, \<lparr>pid = ''P2'', arrival = 1, burst = 3\<rparr>])) \<and>
   (0::int) \<le> 4 \<and> (1::int) + 3 \<le> 8 \<and> (7::int) = 8 - 1 \<and> (4::int) = 7 - 3"
  using fcfs_result_invariants [of lex_compare
           "[\<lparr>pid = ''P1'', arrival = 0, burst = 5\<rparr>, \<lparr>pid = ''P2'', arrival = 1, burst = 3\<rparr>]"]
  by (simp add: scenario_A)

subsection \<open>Completion times increase\<close>

lemma loop_completion_increasing:
  assumes "\<forall>p \<in> set ps. 1 \<le> burst p"
    and "sorted_wrt (<) (map completion (done_acc s))"
    and "\<forall>r \<in> set (done_acc s). completion r \<le> time s"
  shows "sorted_wrt (<) (map completion (done_acc (foldl fcfs_step s ps))) \<and>
         (\<forall>r \<in> set (done_acc (foldl fcfs_step s ps)).
            completion r \<le> time (foldl fcfs_step s ps))"
  using assms
proof (induction ps arbitrary: s)
  case Nil
  then show ?case by simp
next
  case (Cons p ps)
  have b: "1 \<le> burst p" using Cons.prems(1) by simp
  have 1: "sorted_wrt (<) (map completion (done_acc (fcfs_step s p)))"
    using Cons.prems(2,3) b by (fastforce simp: step_done sorted_wrt_append)
  have 2: "\<forall>r \<in> set (done_acc (fcfs_step s p)). completion r \<le> time (fcfs_step s p)"
    using Cons.prems(3) b by (fastforce simp: step_done step_time)
  from Cons.IH [OF _ 1 2] Cons.prems(1) show ?case by simp
qed

text \<open>
  C9. When every burst time is at least \<open>1\<close>, the completion times of the results that
  \<open>fcfs\<close> returns are strictly increasing along the sequence.
\<close>

theorem fcfs_completion_strictly_increasing:
  assumes "\<forall>p \<in> set processes. 1 \<le> burst p"
  shows "sorted_wrt (<) (map completion (out_results (fcfs localeCompare processes)))"
proof -
  have "\<forall>p \<in> set (sorted_procs localeCompare processes). 1 \<le> burst p"
    using assms by (simp add: set_sorted_procs)
  from loop_completion_increasing [OF this, of fcfs_init]
  show ?thesis by (simp add: fcfs_unfold fcfs_init_def)
qed

theorem fcfs_completion_strictly_increasing_witness:
  "1 \<le> burst \<lparr>pid = ''P1'', arrival = 0, burst = 5\<rparr> \<and>
   1 \<le> burst \<lparr>pid = ''P2'', arrival = 1, burst = 3\<rparr> \<and>
   map completion (out_results (fcfs lex_compare
     [\<lparr>pid = ''P1'', arrival = 0, burst = 5\<rparr>, \<lparr>pid = ''P2'', arrival = 1, burst = 3\<rparr>])) = [5, 8] \<and>
   sorted_wrt (<) (map completion (out_results (fcfs lex_compare
     [\<lparr>pid = ''P1'', arrival = 0, burst = 5\<rparr>, \<lparr>pid = ''P2'', arrival = 1, burst = 3\<rparr>])))"
  using fcfs_completion_strictly_increasing [of
     "[\<lparr>pid = ''P1'', arrival = 0, burst = 5\<rparr>, \<lparr>pid = ''P2'', arrival = 1, burst = 3\<rparr>]" lex_compare]
  by (simp add: scenario_A)

subsection \<open>Coverage of the timeline\<close>

lemma step_length:
  "0 \<le> burst p \<Longrightarrow> int (length (timeline s)) = time s \<Longrightarrow>
   int (length (timeline (fcfs_step s p))) = time (fcfs_step s p)"
  by (simp add: step_timeline step_time max_def)

lemma coverage_step:
  assumes inv: "coverage_inv P s" and b: "0 \<le> burst p" and pin: "pid p \<in> P"
  shows "coverage_inv P (fcfs_step s p)"
proof -
  let ?tl = "timeline s" and ?idle = "replicate (nat (arrival p - time s)) IDLE"
  let ?run = "replicate (nat (burst p)) (pid p)"
  let ?st = "max (time s) (arrival p)"
  let ?r = "\<lparr> pid = pid p, arrival = arrival p, burst = burst p,
          completion = ?st + burst p,
          waiting = ?st - arrival p,
          turnaround = ?st + burst p - arrival p \<rparr>"
  from inv have len: "int (length ?tl) = time s"
    and le: "\<forall>r \<in> set (done_acc s). completion r \<le> time s"
    and un: "\<forall>u \<in> set ?tl. u = IDLE \<or> u \<in> P"
    and own: "\<forall>r \<in> set (done_acc s). \<forall>k. occupies r k \<longrightarrow> ?tl ! k = pid r"
    and idle: "\<forall>k < length ?tl. (\<forall>r \<in> set (done_acc s). \<not> occupies r k) \<longrightarrow> ?tl ! k = IDLE"
    by (simp_all add: coverage_inv_def)
  have tl': "timeline (fcfs_step s p) = ?tl @ ?idle @ ?run" by (rule step_timeline)
  have dn': "done_acc (fcfs_step s p) = done_acc s @ [?r]" by (rule step_done)
  have tm': "time (fcfs_step s p) = ?st + burst p" by (rule step_time)
  have len_idle: "int (length (?tl @ ?idle)) = ?st" using len by (simp add: max_def)
  have c1: "int (length (timeline (fcfs_step s p))) = time (fcfs_step s p)"
    by (rule step_length [OF b len])
  have c2: "\<forall>r \<in> set (done_acc (fcfs_step s p)). completion r \<le> time (fcfs_step s p)"
    using le b by (fastforce simp: dn' tm')
  have c3: "completion (last (done_acc (fcfs_step s p))) = time (fcfs_step s p)"
    by (simp add: dn' tm')
  have c4: "\<forall>u \<in> set (timeline (fcfs_step s p)). u = IDLE \<or> u \<in> P"
    using un pin by (auto simp: tl')
  have new_own: "(?tl @ ?idle @ ?run) ! k = pid p" if "occupies ?r k" for k
  proof -
    from that have k: "?st \<le> int k" "int k < ?st + burst p" by (simp_all add: occupies_def)
    then have "length (?tl @ ?idle) \<le> k" using len_idle by linarith
    moreover have "k - length (?tl @ ?idle) < nat (burst p)" using k len_idle by linarith
    ultimately show ?thesis
      using nth_append [of "?tl @ ?idle" ?run k] by simp
  qed
  have old_own: "(?tl @ ?idle @ ?run) ! k = pid r" if "r \<in> set (done_acc s)" "occupies r k" for r k
  proof -
    from that le have "int k < time s" by (fastforce simp: occupies_def)
    then have "k < length ?tl" using len by linarith
    then show ?thesis using own that by (simp add: nth_append)
  qed
  have c5: "\<forall>r \<in> set (done_acc (fcfs_step s p)). \<forall>k. occupies r k \<longrightarrow>
              timeline (fcfs_step s p) ! k = pid r"
    using new_own old_own by (auto simp: dn' tl')
  have c7: "sorted_wrt (\<lambda>r r'. completion r \<le> completion r' - burst r') (done_acc (fcfs_step s p))"
    using inv le by (auto simp: dn' sorted_wrt_append coverage_inv_def)
  have c6: "\<forall>k < length (timeline (fcfs_step s p)).
              (\<forall>r \<in> set (done_acc (fcfs_step s p)). \<not> occupies r k) \<longrightarrow>
              timeline (fcfs_step s p) ! k = IDLE"
  proof (intro allI impI)
    fix k
    assume kl: "k < length (timeline (fcfs_step s p))"
      and no: "\<forall>r \<in> set (done_acc (fcfs_step s p)). \<not> occupies r k"
    from no have no_old: "\<forall>r \<in> set (done_acc s). \<not> occupies r k" and no_new: "\<not> occupies ?r k"
      by (simp_all add: dn')
    show "timeline (fcfs_step s p) ! k = IDLE"
    proof (cases "k < length ?tl")
      case True
      then show ?thesis using idle no_old by (simp add: tl' nth_append)
    next
      case False
      from kl c1 tm' have "int k < ?st + burst p" by simp
      with no_new have "int k < ?st" by (auto simp: occupies_def max_def)
      then have "k < length (?tl @ ?idle)" using len_idle by linarith
      with False have "(?tl @ ?idle) ! k = IDLE" by (simp add: nth_append)
      moreover have "(?tl @ ?idle @ ?run) ! k = (?tl @ ?idle) ! k"
        using \<open>k < length (?tl @ ?idle)\<close> nth_append [of "?tl @ ?idle" ?run k] by simp
      ultimately show ?thesis by (simp add: tl')
    qed
  qed
  show ?thesis
    unfolding coverage_inv_def using c1 c2 c3 c4 c5 c6 c7 by (simp add: dn')
qed

lemma coverage_loop:
  assumes "coverage_inv P s" and "\<forall>p \<in> set ps. 0 \<le> burst p \<and> pid p \<in> P"
  shows "coverage_inv P (foldl fcfs_step s ps)"
  using assms(1)
  by (rule foldl_step_invariant) (use assms(2) in \<open>auto intro: coverage_step\<close>)

lemma coverage_init: "coverage_inv P fcfs_init"
  by (simp add: coverage_inv_def fcfs_init_def)

lemma loop_done_nonempty: "ps \<noteq> [] \<Longrightarrow> done_acc (foldl fcfs_step s ps) \<noteq> []"
  by (induction ps arbitrary: s rule: rev_induct) (auto simp: step_done)

lemma sorted_procs_nonempty: "ps \<noteq> [] \<Longrightarrow> sorted_procs c ps \<noteq> []"
  by (metis length_0_conv length_js_sort sorted_procs_def length_map)


text \<open>
  C1. For every valid input the timeline that \<open>fcfs\<close> returns is as long as the
  completion time of the last result, and each of its units is \<open>IDLE\<close> or the id of an
  input process. Each result's process holds exactly the units from its start to its
  completion, every unit that no result holds is \<open>IDLE\<close>, and the run of a result ends
  before the run of any later result starts: no gaps, no overlaps.
\<close>

theorem fcfs_timeline_coverage:
  assumes "valid_input processes"
  shows "out_results (fcfs localeCompare processes) \<noteq> [] \<and>
     int (length (out_timeline (fcfs localeCompare processes))) =
       completion (last (out_results (fcfs localeCompare processes))) \<and>
     (\<forall>u \<in> set (out_timeline (fcfs localeCompare processes)).
        u = IDLE \<or> u \<in> pid ` set processes) \<and>
     (\<forall>r \<in> set (out_results (fcfs localeCompare processes)). \<forall>k.
        occupies r k \<longrightarrow> out_timeline (fcfs localeCompare processes) ! k = pid r) \<and>
     (\<forall>k < length (out_timeline (fcfs localeCompare processes)).
        (\<forall>r \<in> set (out_results (fcfs localeCompare processes)). \<not> occupies r k) \<longrightarrow>
        out_timeline (fcfs localeCompare processes) ! k = IDLE) \<and>
     sorted_wrt (\<lambda>r r'. completion r \<le> completion r' - burst r')
       (out_results (fcfs localeCompare processes))"
proof -
  let ?ps = "sorted_procs localeCompare processes"
  let ?s = "foldl fcfs_step fcfs_init ?ps"
  have "\<forall>p \<in> set ?ps. 0 \<le> burst p \<and> pid p \<in> pid ` set processes"
    using assms by (fastforce simp: set_sorted_procs valid_input_def)
  from coverage_loop [OF coverage_init this]
  have inv: "coverage_inv (pid ` set processes) ?s" .
  have ne: "done_acc ?s \<noteq> []"
    using assms by (simp add: loop_done_nonempty sorted_procs_nonempty valid_input_def)
  from inv ne show ?thesis
    unfolding fcfs_unfold coverage_inv_def by simp
qed


lemma scenario_gap:
  "fcfs lex_compare
     [\<lparr>pid = ''P1'', arrival = 3, burst = 2\<rparr>, \<lparr>pid = ''P2'', arrival = 1, burst = 1\<rparr>] =
   \<lparr> out_timeline = [''IDLE'', ''P2'', ''IDLE'', ''P1'', ''P1''],
     out_results =
       [\<lparr>pid = ''P2'', arrival = 1, burst = 1, completion = 2, waiting = 0, turnaround = 1\<rparr>,
        \<lparr>pid = ''P1'', arrival = 3, burst = 2, completion = 5, waiting = 0, turnaround = 2\<rparr>] \<rparr>"
  by code_simp

theorem fcfs_timeline_coverage_witness:
  "valid_input
     [\<lparr>pid = ''P1'', arrival = 3, burst = 2\<rparr>, \<lparr>pid = ''P2'', arrival = 1, burst = 1\<rparr>] \<and>
   out_timeline (fcfs lex_compare
     [\<lparr>pid = ''P1'', arrival = 3, burst = 2\<rparr>, \<lparr>pid = ''P2'', arrival = 1, burst = 1\<rparr>]) =
     [''IDLE'', ''P2'', ''IDLE'', ''P1'', ''P1''] \<and>
   int (length (out_timeline (fcfs lex_compare
     [\<lparr>pid = ''P1'', arrival = 3, burst = 2\<rparr>, \<lparr>pid = ''P2'', arrival = 1, burst = 1\<rparr>]))) =
     completion (last (out_results (fcfs lex_compare
     [\<lparr>pid = ''P1'', arrival = 3, burst = 2\<rparr>, \<lparr>pid = ''P2'', arrival = 1, burst = 1\<rparr>]))) \<and>
   sorted_wrt (\<lambda>r r'. completion r \<le> completion r' - burst r')
     (out_results (fcfs lex_compare
     [\<lparr>pid = ''P1'', arrival = 3, burst = 2\<rparr>, \<lparr>pid = ''P2'', arrival = 1, burst = 1\<rparr>]))"
proof -
  have h: "valid_input
     [\<lparr>pid = ''P1'', arrival = 3, burst = 2\<rparr>, \<lparr>pid = ''P2'', arrival = 1, burst = 1\<rparr>]"
    by (simp add: valid_input_def)
  from fcfs_timeline_coverage [OF h, of lex_compare] h show ?thesis
    by (simp add: scenario_gap)
qed

subsection \<open>Conservation\<close>








subsection \<open>Idle gap\<close>

lemma scenario_B:
  "fcfs localeCompare [\<lparr>pid = ''P1'', arrival = 2, burst = 3\<rparr>] =
     \<lparr> out_timeline = [IDLE, IDLE, ''P1'', ''P1'', ''P1''],
       out_results =
         [\<lparr>pid = ''P1'', arrival = 2, burst = 3, completion = 5, waiting = 0, turnaround = 3\<rparr>] \<rparr>"
  by (simp add: fcfs_def sorted_procs_def fcfs_init_def fcfs_step_def Let_def push_loop_eq
      eval_nat_numeral)

text \<open>
  C4. When the clock is before the arrival time of the process that the loop takes
  next, the iteration appends exactly \<open>arrival - time\<close> units \<open>IDLE\<close> and then the units
  of the process, which starts at its arrival time (its completion is \<open>arrival + burst\<close>
  and its waiting time \<open>0\<close>). For the single process \<open>P1\<close>, arrival \<open>2\<close>, burst \<open>3\<close>, the
  timeline is \<open>IDLE, IDLE, P1, P1, P1\<close> with completion \<open>5\<close>, waiting \<open>0\<close>, turnaround \<open>3\<close>.
\<close>

theorem fcfs_idle_gap:
  "(time s < arrival p \<longrightarrow>
      timeline (fcfs_step s p) =
        timeline s @ replicate (nat (arrival p - time s)) IDLE @
          replicate (nat (burst p)) (pid p) \<and>
      int (length (replicate (nat (arrival p - time s)) IDLE)) = arrival p - time s \<and>
      completion (last (done_acc (fcfs_step s p))) - burst p = arrival p \<and>
      completion (last (done_acc (fcfs_step s p))) = arrival p + burst p \<and>
      waiting (last (done_acc (fcfs_step s p))) = 0 \<and>
      time (fcfs_step s p) = arrival p + burst p) \<and>
   fcfs localeCompare [\<lparr>pid = ''P1'', arrival = 2, burst = 3\<rparr>] =
     \<lparr> out_timeline = [IDLE, IDLE, ''P1'', ''P1'', ''P1''],
       out_results =
         [\<lparr>pid = ''P1'', arrival = 2, burst = 3, completion = 5, waiting = 0, turnaround = 3\<rparr>] \<rparr>"
  by (simp add: scenario_B step_timeline step_done step_time)

theorem fcfs_idle_gap_witness:
  "time fcfs_init < arrival \<lparr>pid = ''P1'', arrival = 2, burst = 3\<rparr> \<and>
   timeline (fcfs_step fcfs_init \<lparr>pid = ''P1'', arrival = 2, burst = 3\<rparr>) =
     [''IDLE'', ''IDLE'', ''P1'', ''P1'', ''P1''] \<and>
   completion (last (done_acc (fcfs_step fcfs_init \<lparr>pid = ''P1'', arrival = 2, burst = 3\<rparr>))) = 5"
  using fcfs_idle_gap [of fcfs_init "\<lparr>pid = ''P1'', arrival = 2, burst = 3\<rparr>" lex_compare]
  by (simp add: fcfs_init_def IDLE_def eval_nat_numeral)

subsection \<open>Compression\<close>

lemma expand_append: "expand (xs @ ys) = expand xs @ expand ys"
  by (simp add: expand_def)

lemma compress_step_expand:
  assumes "\<forall>b \<in> set acc. 0 \<le> duration b"
  shows "expand (compress_step acc x) = expand acc @ [x] \<and>
         (\<forall>b \<in> set (compress_step acc x). 0 \<le> duration b)"
proof (cases acc rule: rev_cases)
  case Nil
  then show ?thesis by (simp add: compress_step_def expand_def)
next
  case (snoc ys y)
  with assms have y: "0 \<le> duration y" and ys: "\<forall>b \<in> set ys. 0 \<le> duration b" by simp_all
  show ?thesis
  proof (cases "block_id y = x")
    case True
    have "nat (duration y + 1) = Suc (nat (duration y))" using y by simp
    with True snoc y ys show ?thesis
      by (simp add: compress_step_def expand_def replicate_append_same)
  next
    case False
    with snoc y ys show ?thesis by (simp add: compress_step_def expand_def)
  qed
qed

lemma compress_loop_expand:
  "\<forall>b \<in> set acc. 0 \<le> duration b \<Longrightarrow>
   expand (foldl compress_step acc units) = expand acc @ units"
proof (induction units arbitrary: acc)
  case Nil
  then show ?case by simp
next
  case (Cons u units)
  from compress_step_expand [OF Cons.prems, of u] Cons.IH [of "compress_step acc u"]
  show ?case by simp
qed

text \<open>
  C5. Expanding the compressed timeline gives the timeline back, for every timeline,
  and the empty timeline is compressed to the empty sequence of blocks.
\<close>

theorem compress_round_trip:
  "expand (compress units) = units \<and> compress [] = [] \<and>
   map_option expand (compressedTimeline (Some units)) = Some units \<and>
   compressedTimeline (Some []) = Some []"
  using compress_loop_expand [of "[]" units]
  by (simp add: compress_def compressedTimeline_def expand_def)

subsection \<open>Averages\<close>




subsection \<open>The order of execution\<close>

lemma set_insert_by: "set (insert_by c x xs) = insert x (set xs)"
  by (metis mset_insert_by set_mset_add_mset_insert set_mset_mset)

lemma sorted_insert_by:
  assumes total: "\<And>a b. 0 < c a b \<Longrightarrow> c b a \<le> 0"
    and trans: "\<And>a b d. c a b \<le> 0 \<Longrightarrow> c b d \<le> 0 \<Longrightarrow> c a d \<le> 0"
    and "sorted_wrt (\<lambda>a b. c a b \<le> 0) ys"
  shows "sorted_wrt (\<lambda>a b. c a b \<le> 0) (insert_by c x ys)"
  using assms(3)
proof (induction ys)
  case Nil
  then show ?case by simp
next
  case (Cons y ys)
  show ?case
  proof (cases "c x y \<le> 0")
    case True
    then have "\<forall>z \<in> set ys. c x z \<le> 0" using Cons.prems trans by auto
    with True Cons.prems show ?thesis by simp
  next
    case False
    then have "c y x \<le> 0" using total [of x y] by simp
    with False Cons show ?thesis by (auto simp: set_insert_by)
  qed
qed

lemma sorted_js_sort:
  assumes "\<And>a b. 0 < c a b \<Longrightarrow> c b a \<le> 0"
    and "\<And>a b d. c a b \<le> 0 \<Longrightarrow> c b d \<le> 0 \<Longrightarrow> c a d \<le> 0"
  shows "sorted_wrt (\<lambda>a b. c a b \<le> 0) (js_sort c xs)"
  by (induction xs) (simp_all add: sorted_insert_by [OF assms])

lemma compare_procs_total:
  assumes anti: "\<And>a b. (lc a b < 0) = (0 < lc b a)"
  shows "0 < compare_procs lc a b \<Longrightarrow> compare_procs lc b a \<le> 0"
  using anti [of "pid b" "pid a"] by (auto simp: compare_procs_def split: if_splits)

lemma compare_procs_trans:
  assumes trans: "\<And>a b c. lc a b \<le> 0 \<Longrightarrow> lc b c \<le> 0 \<Longrightarrow> lc a c \<le> 0"
  shows "compare_procs lc a b \<le> 0 \<Longrightarrow> compare_procs lc b d \<le> 0 \<Longrightarrow> compare_procs lc a d \<le> 0"
  using trans [of "pid a" "pid b" "pid d"] by (auto simp: compare_procs_def split: if_splits)

lemma sorted_sorted_procs:
  assumes "\<And>a b. (lc a b < 0) = (0 < lc b a)"
    and "\<And>a b c. lc a b \<le> 0 \<Longrightarrow> lc b c \<le> 0 \<Longrightarrow> lc a c \<le> 0"
  shows "sorted_wrt (\<lambda>a b. compare_procs lc a b \<le> 0) (sorted_procs lc ps)"
  unfolding sorted_procs_def
proof (rule sorted_js_sort)
  fix a b d :: process
  show "0 < compare_procs lc a b \<Longrightarrow> compare_procs lc b a \<le> 0"
    by (rule compare_procs_total [OF assms(1)])
  show "compare_procs lc a b \<le> 0 \<Longrightarrow> compare_procs lc b d \<le> 0 \<Longrightarrow>
        compare_procs lc a d \<le> 0"
    by (rule compare_procs_trans [OF assms(2)])
qed

lemma loop_results_procs:
  "map proc_of (done_acc (foldl fcfs_step s ps)) = map proc_of (done_acc s) @ ps"
  by (induction ps arbitrary: s) (simp_all add: step_done proc_of_def)

lemma fcfs_results_procs:
  "map proc_of (out_results (fcfs lc ps)) = sorted_procs lc ps"
  by (simp add: fcfs_unfold loop_results_procs fcfs_init_def)

lemma lex_compare_anti: "(lex_compare a b < 0) = (0 < lex_compare b a)"
  by (induction a b rule: lex_compare.induct) auto

lemma lex_compare_trans:
  "lex_compare a b \<le> 0 \<Longrightarrow> lex_compare b c \<le> 0 \<Longrightarrow> lex_compare a c \<le> 0"
proof (induction a arbitrary: b c)
  case Nil
  then show ?case by (cases c) simp_all
next
  case (Cons x xs)
  then show ?case
    by (cases b; cases c) (auto split: if_splits)
qed

lemma fcfs_coverage_inv:
  assumes "\<forall>p \<in> set ps. 0 \<le> burst p"
  shows "coverage_inv (pid ` set ps) (foldl fcfs_step fcfs_init (sorted_procs lc ps))"
proof -
  have "\<forall>p \<in> set (sorted_procs lc ps). 0 \<le> burst p \<and> pid p \<in> pid ` set ps"
    using assms by (simp add: set_sorted_procs)
  from coverage_loop [OF coverage_init this] show ?thesis .
qed


lemma compare_procs_le:
  "(compare_procs lc a b \<le> 0) =
     (arrival a < arrival b \<or> arrival a = arrival b \<and> lc (pid a) (pid b) \<le> 0)"
  by (auto simp: compare_procs_def)

lemma compare_procs_proc_of:
  "compare_procs lc (proc_of a) (proc_of b) = compare_procs lc a b"
  by (simp add: compare_procs_def proc_of_def)

lemma fcfs_completions_increasing:
  assumes "\<forall>p \<in> set ps. 1 \<le> burst p"
  shows "sorted_wrt (<) (map completion (out_results (fcfs lc ps)))"
proof -
  have "\<forall>p \<in> set (sorted_procs lc ps). 1 \<le> burst p"
    using assms by (simp add: set_sorted_procs)
  from loop_completion_increasing [OF this, of fcfs_init]
  show ?thesis by (simp add: fcfs_unfold fcfs_init_def)
qed

text \<open>
  C2. \<open>fcfs\<close> executes the processes in the order obtained by sorting on ascending
  arrival time, ties broken by ascending id in the order of \<open>localeCompare\<close> (any
  consistent comparator: antisymmetric and transitive). The results, in execution
  order, are the sorted input, a permutation of the input. Of two results with equal
  arrival time the one whose id is smaller comes first; and when every burst time is
  at least \<open>1\<close>, as \<open>simulate\<close> ensures, it completes first and each of its timeline
  units is before each unit of the other.
\<close>

theorem fcfs_tie_break:
  assumes anti: "\<And>a b. (localeCompare a b < 0) = (0 < localeCompare b a)"
    and trans: "\<And>a b c. localeCompare a b \<le> 0 \<Longrightarrow> localeCompare b c \<le> 0 \<Longrightarrow>
                  localeCompare a c \<le> 0"
  shows
    "(let rs = out_results (fcfs localeCompare processes);
          units = out_timeline (fcfs localeCompare processes)
      in map proc_of rs = sorted_procs localeCompare processes \<and>
         mset (sorted_procs localeCompare processes) = mset processes \<and>
         sorted_wrt (\<lambda>a b. arrival a < arrival b \<or>
                       arrival a = arrival b \<and> localeCompare (pid a) (pid b) \<le> 0)
           (sorted_procs localeCompare processes) \<and>
         (\<forall>i j. i < length rs \<and> j < length rs \<and> arrival (rs ! i) = arrival (rs ! j) \<and>
                localeCompare (pid (rs ! i)) (pid (rs ! j)) < 0 \<longrightarrow>
            i < j \<and>
            ((\<forall>p \<in> set processes. 1 \<le> burst p) \<longrightarrow>
               completion (rs ! i) < completion (rs ! j) \<and>
               (\<forall>k k'. occupies (rs ! i) k \<and> occupies (rs ! j) k' \<longrightarrow>
                  k < k' \<and> units ! k = pid (rs ! i) \<and> units ! k' = pid (rs ! j)))))"
proof -
  let ?rs = "out_results (fcfs localeCompare processes)"
  let ?units = "out_timeline (fcfs localeCompare processes)"
  let ?ps = "sorted_procs localeCompare processes"
  have m: "map proc_of ?rs = ?ps" by (rule fcfs_results_procs)
  have srt: "sorted_wrt (\<lambda>a b. compare_procs localeCompare a b \<le> 0) ?ps"
    by (rule sorted_sorted_procs [OF anti trans])
  then have srt': "sorted_wrt (\<lambda>a b. arrival a < arrival b \<or>
                       arrival a = arrival b \<and> localeCompare (pid a) (pid b) \<le> 0) ?ps"
    by (simp add: compare_procs_le)
  have "sorted_wrt (\<lambda>a b. compare_procs localeCompare a b \<le> 0) (map proc_of ?rs)"
    using srt m by simp
  then have srt_rs: "sorted_wrt (\<lambda>a b. compare_procs localeCompare a b \<le> 0) ?rs"
    by (simp add: sorted_wrt_map compare_procs_proc_of)
  have order: "i < j"
    if "i < length ?rs" "j < length ?rs" "arrival (?rs ! i) = arrival (?rs ! j)"
      "localeCompare (pid (?rs ! i)) (pid (?rs ! j)) < 0" for i j
  proof (rule ccontr)
    assume "\<not> i < j"
    then consider "j = i" | "j < i" by linarith
    then show False
    proof cases
      case 1
      with that(4) anti [of "pid (?rs ! i)" "pid (?rs ! i)"] show False by simp
    next
      case 2
      from sorted_wrt_nth_less [OF srt_rs 2 that(1)]
      have "localeCompare (pid (?rs ! j)) (pid (?rs ! i)) \<le> 0"
        using that(3) by (simp add: compare_procs_def)
      with that(4) anti [of "pid (?rs ! i)" "pid (?rs ! j)"] show False by simp
    qed
  qed
  have timing: "completion (?rs ! i) < completion (?rs ! j) \<and>
               (\<forall>k k'. occupies (?rs ! i) k \<and> occupies (?rs ! j) k' \<longrightarrow>
                  k < k' \<and> ?units ! k = pid (?rs ! i) \<and> ?units ! k' = pid (?rs ! j))"
    if ij: "i < j" "j < length ?rs" and b: "\<forall>p \<in> set processes. 1 \<le> burst p" for i j
  proof -
    from b have b0: "\<forall>p \<in> set processes. 0 \<le> burst p" by fastforce
    from fcfs_coverage_inv [OF b0, of localeCompare]
    have own: "\<forall>r \<in> set ?rs. \<forall>k. occupies r k \<longrightarrow> ?units ! k = pid r"
      and dis: "sorted_wrt (\<lambda>r r'. completion r \<le> completion r' - burst r') ?rs"
      by (simp_all add: coverage_inv_def fcfs_unfold)
    from ij have ri: "?rs ! i \<in> set ?rs" and rj: "?rs ! j \<in> set ?rs" by simp_all
    from sorted_wrt_nth_less [OF dis ij]
    have d: "completion (?rs ! i) \<le> completion (?rs ! j) - burst (?rs ! j)" .
    from sorted_wrt_nth_less [OF fcfs_completions_increasing [OF b, of localeCompare], of i j] ij
    have c: "completion (?rs ! i) < completion (?rs ! j)" by simp
    have "k < k'" if "occupies (?rs ! i) k" "occupies (?rs ! j) k'" for k k'
      using that d by (simp add: occupies_def)
    with own ri rj c show ?thesis by blast
  qed
  have ties: "\<forall>i j. i < length ?rs \<and> j < length ?rs \<and> arrival (?rs ! i) = arrival (?rs ! j) \<and>
                localeCompare (pid (?rs ! i)) (pid (?rs ! j)) < 0 \<longrightarrow>
            i < j \<and>
            ((\<forall>p \<in> set processes. 1 \<le> burst p) \<longrightarrow>
               completion (?rs ! i) < completion (?rs ! j) \<and>
               (\<forall>k k'. occupies (?rs ! i) k \<and> occupies (?rs ! j) k' \<longrightarrow>
                  k < k' \<and> ?units ! k = pid (?rs ! i) \<and> ?units ! k' = pid (?rs ! j)))"
  proof (intro allI impI, elim conjE)
    fix i j
    assume h: "i < length ?rs" "j < length ?rs" "arrival (?rs ! i) = arrival (?rs ! j)"
      "localeCompare (pid (?rs ! i)) (pid (?rs ! j)) < 0"
    from order [OF h] have ij: "i < j" .
    show "i < j \<and>
            ((\<forall>p \<in> set processes. 1 \<le> burst p) \<longrightarrow>
               completion (?rs ! i) < completion (?rs ! j) \<and>
               (\<forall>k k'. occupies (?rs ! i) k \<and> occupies (?rs ! j) k' \<longrightarrow>
                  k < k' \<and> ?units ! k = pid (?rs ! i) \<and> ?units ! k' = pid (?rs ! j)))"
    proof (rule conjI [OF ij], rule impI)
      assume b: "\<forall>p \<in> set processes. 1 \<le> burst p"
      show "completion (?rs ! i) < completion (?rs ! j) \<and>
               (\<forall>k k'. occupies (?rs ! i) k \<and> occupies (?rs ! j) k' \<longrightarrow>
                  k < k' \<and> ?units ! k = pid (?rs ! i) \<and> ?units ! k' = pid (?rs ! j))"
        by (rule timing [OF ij h(2) b])
    qed
  qed
  have perm: "mset ?ps = mset processes" by (rule mset_sorted_procs)
  show ?thesis
    unfolding Let_def by (intro conjI m perm srt' ties)
qed


lemma scenario_C:
  "fcfs lex_compare
     [\<lparr>pid = ''P2'', arrival = 0, burst = 2\<rparr>, \<lparr>pid = ''P1'', arrival = 0, burst = 2\<rparr>] =
   \<lparr> out_timeline = [''P1'', ''P1'', ''P2'', ''P2''],
     out_results =
       [\<lparr>pid = ''P1'', arrival = 0, burst = 2, completion = 2, waiting = 0, turnaround = 2\<rparr>,
        \<lparr>pid = ''P2'', arrival = 0, burst = 2, completion = 4, waiting = 2, turnaround = 4\<rparr>] \<rparr>"
  by code_simp

theorem fcfs_tie_break_witness:
  "(\<forall>a b. (lex_compare a b < 0) = (0 < lex_compare b a)) \<and>
   \<not> (\<exists>a b c. lex_compare a b \<le> 0 \<and> lex_compare b c \<le> 0 \<and> 0 < lex_compare a c) \<and>
   lex_compare ''P1'' ''P2'' < 0 \<and>
   1 \<le> burst \<lparr>pid = ''P2'', arrival = 0, burst = 2\<rparr> \<and>
   1 \<le> burst \<lparr>pid = ''P1'', arrival = 0, burst = 2\<rparr> \<and>
   map proc_of (out_results (fcfs lex_compare
     [\<lparr>pid = ''P2'', arrival = 0, burst = 2\<rparr>, \<lparr>pid = ''P1'', arrival = 0, burst = 2\<rparr>])) =
     [\<lparr>pid = ''P1'', arrival = 0, burst = 2\<rparr>, \<lparr>pid = ''P2'', arrival = 0, burst = 2\<rparr>] \<and>
   map completion (out_results (fcfs lex_compare
     [\<lparr>pid = ''P2'', arrival = 0, burst = 2\<rparr>, \<lparr>pid = ''P1'', arrival = 0, burst = 2\<rparr>])) = [2, 4] \<and>
   out_timeline (fcfs lex_compare
     [\<lparr>pid = ''P2'', arrival = 0, burst = 2\<rparr>, \<lparr>pid = ''P1'', arrival = 0, burst = 2\<rparr>]) =
     [''P1'', ''P1'', ''P2'', ''P2'']"
proof -
  note t = fcfs_tie_break [of lex_compare
      "[\<lparr>pid = ''P2'', arrival = 0, burst = 2\<rparr>, \<lparr>pid = ''P1'', arrival = 0, burst = 2\<rparr>]",
      OF lex_compare_anti lex_compare_trans]
  have a: "\<forall>a b. (lex_compare a b < 0) = (0 < lex_compare b a)"
    using lex_compare_anti by blast
  have b: "\<not> (\<exists>a b c. lex_compare a b \<le> 0 \<and> lex_compare b c \<le> 0 \<and> 0 < lex_compare a c)"
    using lex_compare_trans by fastforce
  have c: "map proc_of (out_results (fcfs lex_compare
     [\<lparr>pid = ''P2'', arrival = 0, burst = 2\<rparr>, \<lparr>pid = ''P1'', arrival = 0, burst = 2\<rparr>])) =
     sorted_procs lex_compare
       [\<lparr>pid = ''P2'', arrival = 0, burst = 2\<rparr>, \<lparr>pid = ''P1'', arrival = 0, burst = 2\<rparr>]"
    using t by (simp add: Let_def)
  have d: "sorted_procs lex_compare
       [\<lparr>pid = ''P2'', arrival = 0, burst = 2\<rparr>, \<lparr>pid = ''P1'', arrival = 0, burst = 2\<rparr>] =
       [\<lparr>pid = ''P1'', arrival = 0, burst = 2\<rparr>, \<lparr>pid = ''P2'', arrival = 0, burst = 2\<rparr>]"
    by (simp add: sorted_procs_def compare_procs_def)
  show ?thesis
    using a b c d by (simp add: scenario_C)
qed

subsection \<open>Validation in \<open>simulate\<close>\<close>

lemma validate_append:
  "validate (xs @ ys) a = (case validate xs a of Inl e \<Rightarrow> Inl e | Inr a' \<Rightarrow> validate ys a')"
  by (induction xs arbitrary: a) (auto split: option.splits)

lemma validate_skip:
  assumes "trim (row_pid r) \<noteq> []" "row_arrival r = Blank" "row_burst r = Blank"
  shows "validate (xs @ r # ys) a = validate (xs @ ys) a"
  using assms by (simp add: validate_append split: sum.splits)

lemma validate_incomplete_aborts:
  assumes "r \<in> set rows" and "(row_arrival r = Blank) \<noteq> (row_burst r = Blank)"
  shows "\<exists>e. validate rows a = Inl e"
  using assms(1)
proof (induction rows arbitrary: a)
  case Nil
  then show ?case by simp
next
  case (Cons p ps)
  show ?case
  proof (cases "p = r")
    case True
    with assms(2) show ?thesis by auto
  next
    case False
    with Cons.prems have "r \<in> set ps" by simp
    from Cons.IH [OF this] show ?thesis by (auto split: option.splits)
  qed
qed

lemma validate_incomplete_first:
  assumes "validate xs [] = Inr acc" "trim (row_pid r) \<noteq> []"
    "(row_arrival r = Blank) \<noteq> (row_burst r = Blank)"
  shows "validate (xs @ r # ys) [] = Inl (Incomplete (row_pid r))"
  using assms by (auto simp: validate_append)

lemma validate_all_blank:
  assumes "\<forall>p \<in> set rows. row_arrival p = Blank \<and> row_burst p = Blank"
  shows "validate rows a = Inr a \<or> validate rows a = Inl PidEmpty"
  using assms by (induction rows arbitrary: a) auto

lemma simulate_Inl:
  "validate (st_processes v) [] = Inl e \<Longrightarrow>
   simulate lc v = v\<lparr> st_error := Some e, st_results := None, st_timeline := None \<rparr>"
  by (simp add: simulate_def)

lemma simulate_Inr_Nil:
  "validate (st_processes v) [] = Inr [] \<Longrightarrow>
   simulate lc v = v\<lparr> st_error := Some NoProcess, st_results := None, st_timeline := None \<rparr>"
  by (simp add: simulate_def)

lemma simulate_Inr:
  "validate (st_processes v) [] = Inr ps \<Longrightarrow> ps \<noteq> [] \<Longrightarrow>
   simulate lc v =
     v\<lparr> st_error := None,
        st_results := Some (js_sort (\<lambda>a b. lc (pid a) (pid b)) (out_results (fcfs lc ps))),
        st_timeline := Some (out_timeline (fcfs lc ps)) \<rparr>"
  by (simp add: simulate_def Let_def)

lemma simulate_error_nothing:
  "st_error (simulate lc v) \<noteq> None \<Longrightarrow>
   st_results (simulate lc v) = None \<and> st_timeline (simulate lc v) = None"
  by (simp add: simulate_def Let_def split: sum.splits if_splits)

lemma simulate_no_error:
  "st_error (simulate lc v) = None \<Longrightarrow>
   \<exists>ps. validate (st_processes v) [] = Inr ps \<and> ps \<noteq> [] \<and>
     st_results (simulate lc v) =
       Some (js_sort (\<lambda>a b. lc (pid a) (pid b)) (out_results (fcfs lc ps))) \<and>
     st_timeline (simulate lc v) = Some (out_timeline (fcfs lc ps))"
  by (simp add: simulate_def Let_def split: sum.splits if_splits)

lemma simulate_skip:
  assumes "trim (row_pid r) \<noteq> []" "row_arrival r = Blank" "row_burst r = Blank"
  shows "simulate lc (v\<lparr> st_processes := xs @ r # ys \<rparr>) =
         (simulate lc (v\<lparr> st_processes := xs @ ys \<rparr>))\<lparr> st_processes := xs @ r # ys \<rparr>"
  by (simp add: simulate_def validate_skip [OF assms] Let_def split: sum.splits)


text \<open>
  C7 as stated fails in two places, because the loop of \<open>simulate\<close> returns at the first
  rule that a row violates, rows in order and the id rule first. A row with arrival
  present and burst absent does not always get the error that names it: after a row
  with burst \<open>0\<close> the error is the out-of-range error of that earlier row. And a row with
  both fields absent is not skipped when its id is blank: the batch is rejected, while
  without that row it is scheduled.
\<close>

theorem simulate_incomplete_counterexample:
  "row_arrival \<lparr>row_pid = ''P2'', row_arrival = Num 5, row_burst = Blank\<rparr> \<noteq> Blank \<and>
   row_burst \<lparr>row_pid = ''P2'', row_arrival = Num 5, row_burst = Blank\<rparr> = Blank \<and>
   st_error (simulate lex_compare
     \<lparr> st_processes =
         [\<lparr>row_pid = ''P1'', row_arrival = Num 0, row_burst = Num 0\<rparr>,
          \<lparr>row_pid = ''P2'', row_arrival = Num 5, row_burst = Blank\<rparr>],
       st_results = None, st_timeline = None, st_error = None \<rparr>) = Some (OutOfRange ''P1'') \<and>
   st_error (simulate lex_compare
     \<lparr> st_processes =
         [\<lparr>row_pid = ''P1'', row_arrival = Num 0, row_burst = Num 0\<rparr>,
          \<lparr>row_pid = ''P2'', row_arrival = Num 5, row_burst = Blank\<rparr>],
       st_results = None, st_timeline = None, st_error = None \<rparr>) \<noteq> Some (Incomplete ''P2'') \<and>
   st_error (simulate lex_compare
     \<lparr> st_processes =
         [\<lparr>row_pid = '' '', row_arrival = Blank, row_burst = Blank\<rparr>,
          \<lparr>row_pid = ''P2'', row_arrival = Num 1, row_burst = Num 1\<rparr>],
       st_results = None, st_timeline = None, st_error = None \<rparr>) = Some PidEmpty \<and>
   st_error (simulate lex_compare
     \<lparr> st_processes = [\<lparr>row_pid = ''P2'', row_arrival = Num 1, row_burst = Num 1\<rparr>],
       st_results = None, st_timeline = None, st_error = None \<rparr>) = None"
  by (simp add: simulate_def trim_def is_space_def MAX_TIME_UNIT_def Let_def)

text \<open>
  C7, amended. Validation in \<open>simulate\<close> is all-or-nothing and reports the first violated
  rule. A row with a non-blank id and both arrival and burst absent is skipped: the
  outcome is that of the batch without it. A row with exactly one of the two present
  always aborts the batch (an error is set, results and timeline are null), and the
  error is the incomplete-process error naming that row when its id is not blank and
  the rows before it pass validation. A batch in which every row has both fields
  absent is rejected. Whenever validation fails, or finds no usable row, the error is
  set and results and timeline are null; and when no error is set, the schedule is
  that of \<open>fcfs\<close> on all the validated rows.
\<close>

theorem simulate_all_or_nothing:
  "(trim (row_pid r) \<noteq> [] \<and> row_arrival r = Blank \<and> row_burst r = Blank \<longrightarrow>
      validate (xs @ r # ys) acc = validate (xs @ ys) acc \<and>
      simulate localeCompare (v\<lparr> st_processes := xs @ r # ys \<rparr>) =
        (simulate localeCompare (v\<lparr> st_processes := xs @ ys \<rparr>))
          \<lparr> st_processes := xs @ r # ys \<rparr>) \<and>
   (r \<in> set (st_processes v) \<and> (row_arrival r = Blank) \<noteq> (row_burst r = Blank) \<longrightarrow>
      (\<exists>e. st_error (simulate localeCompare v) = Some e) \<and>
      st_results (simulate localeCompare v) = None \<and>
      st_timeline (simulate localeCompare v) = None) \<and>
   (st_processes v = xs @ r # ys \<and> validate xs [] = Inr acc \<and> trim (row_pid r) \<noteq> [] \<and>
    (row_arrival r = Blank) \<noteq> (row_burst r = Blank) \<longrightarrow>
      simulate localeCompare v =
        v\<lparr> st_error := Some (Incomplete (row_pid r)), st_results := None,
           st_timeline := None \<rparr>) \<and>
   ((\<forall>p \<in> set (st_processes v). row_arrival p = Blank \<and> row_burst p = Blank) \<longrightarrow>
      (st_error (simulate localeCompare v) = Some NoProcess \<or>
       st_error (simulate localeCompare v) = Some PidEmpty) \<and>
      st_results (simulate localeCompare v) = None \<and>
      st_timeline (simulate localeCompare v) = None) \<and>
   (\<forall>e. validate (st_processes v) [] = Inl e \<longrightarrow>
      simulate localeCompare v =
        v\<lparr> st_error := Some e, st_results := None, st_timeline := None \<rparr>) \<and>
   (validate (st_processes v) [] = Inr [] \<longrightarrow>
      simulate localeCompare v =
        v\<lparr> st_error := Some NoProcess, st_results := None, st_timeline := None \<rparr>) \<and>
   (st_error (simulate localeCompare v) \<noteq> None \<longrightarrow>
      st_results (simulate localeCompare v) = None \<and>
      st_timeline (simulate localeCompare v) = None) \<and>
   (st_error (simulate localeCompare v) = None \<longrightarrow>
      (\<exists>ps. validate (st_processes v) [] = Inr ps \<and> ps \<noteq> [] \<and>
         st_results (simulate localeCompare v) =
           Some (js_sort (\<lambda>a b. localeCompare (pid a) (pid b))
                   (out_results (fcfs localeCompare ps))) \<and>
         st_timeline (simulate localeCompare v) =
           Some (out_timeline (fcfs localeCompare ps))))"
proof (intro conjI impI allI)
  assume "trim (row_pid r) \<noteq> [] \<and> row_arrival r = Blank \<and> row_burst r = Blank"
  then show "validate (xs @ r # ys) acc = validate (xs @ ys) acc"
    by (simp add: validate_skip)
next
  assume "trim (row_pid r) \<noteq> [] \<and> row_arrival r = Blank \<and> row_burst r = Blank"
  then show "simulate localeCompare (v\<lparr> st_processes := xs @ r # ys \<rparr>) =
        (simulate localeCompare (v\<lparr> st_processes := xs @ ys \<rparr>))
          \<lparr> st_processes := xs @ r # ys \<rparr>"
    by (simp add: simulate_skip)
next
  assume h: "r \<in> set (st_processes v) \<and> (row_arrival r = Blank) \<noteq> (row_burst r = Blank)"
  then obtain e where e: "validate (st_processes v) [] = Inl e"
    using validate_incomplete_aborts [of r "st_processes v" "[]"] by blast
  from simulate_Inl [OF e, of localeCompare]
  show "\<exists>e. st_error (simulate localeCompare v) = Some e"
    and "st_results (simulate localeCompare v) = None"
    and "st_timeline (simulate localeCompare v) = None"
    by simp_all
next
  assume h: "st_processes v = xs @ r # ys \<and> validate xs [] = Inr acc \<and>
             trim (row_pid r) \<noteq> [] \<and> (row_arrival r = Blank) \<noteq> (row_burst r = Blank)"
  then have "validate (st_processes v) [] = Inl (Incomplete (row_pid r))"
    using validate_incomplete_first [of xs acc r ys] by simp
  then show "simulate localeCompare v =
        v\<lparr> st_error := Some (Incomplete (row_pid r)), st_results := None,
           st_timeline := None \<rparr>"
    by (rule simulate_Inl)
next
  assume h: "\<forall>p \<in> set (st_processes v). row_arrival p = Blank \<and> row_burst p = Blank"
  from validate_all_blank [OF h, of "[]"]
  have "simulate localeCompare v =
          v\<lparr> st_error := Some NoProcess, st_results := None, st_timeline := None \<rparr> \<or>
        simulate localeCompare v =
          v\<lparr> st_error := Some PidEmpty, st_results := None, st_timeline := None \<rparr>"
    using simulate_Inl simulate_Inr_Nil by blast
  then show "st_error (simulate localeCompare v) = Some NoProcess \<or>
       st_error (simulate localeCompare v) = Some PidEmpty"
    and "st_results (simulate localeCompare v) = None"
    and "st_timeline (simulate localeCompare v) = None"
    by auto
next
  fix e
  assume "validate (st_processes v) [] = Inl e"
  then show "simulate localeCompare v =
        v\<lparr> st_error := Some e, st_results := None, st_timeline := None \<rparr>"
    by (rule simulate_Inl)
next
  assume "validate (st_processes v) [] = Inr []"
  then show "simulate localeCompare v =
        v\<lparr> st_error := Some NoProcess, st_results := None, st_timeline := None \<rparr>"
    by (rule simulate_Inr_Nil)
next
  assume "st_error (simulate localeCompare v) \<noteq> None"
  then show "st_results (simulate localeCompare v) = None"
    and "st_timeline (simulate localeCompare v) = None"
    by (simp_all add: simulate_error_nothing)
next
  assume "st_error (simulate localeCompare v) = None"
  then show "\<exists>ps. validate (st_processes v) [] = Inr ps \<and> ps \<noteq> [] \<and>
         st_results (simulate localeCompare v) =
           Some (js_sort (\<lambda>a b. localeCompare (pid a) (pid b))
                   (out_results (fcfs localeCompare ps))) \<and>
         st_timeline (simulate localeCompare v) =
           Some (out_timeline (fcfs localeCompare ps))"
    by (rule simulate_no_error)
qed


theorem simulate_all_or_nothing_witness:
  "\<lparr>row_pid = ''P1'', row_arrival = Num 5, row_burst = Blank\<rparr>
     \<in> set [\<lparr>row_pid = ''P1'', row_arrival = Num 5, row_burst = Blank\<rparr>] \<and>
   validate [] [] = Inr [] \<and>
   trim ''P1'' \<noteq> [] \<and>
   simulate lex_compare
     \<lparr> st_processes = [\<lparr>row_pid = ''P1'', row_arrival = Num 5, row_burst = Blank\<rparr>],
       st_results = None, st_timeline = None, st_error = None \<rparr> =
     \<lparr> st_processes = [\<lparr>row_pid = ''P1'', row_arrival = Num 5, row_burst = Blank\<rparr>],
       st_results = None, st_timeline = None, st_error = Some (Incomplete ''P1'') \<rparr> \<and>
   simulate lex_compare
     \<lparr> st_processes = [\<lparr>row_pid = ''P1'', row_arrival = Blank, row_burst = Blank\<rparr>,
                       \<lparr>row_pid = ''P2'', row_arrival = Num 1, row_burst = Num 2\<rparr>],
       st_results = None, st_timeline = None, st_error = Some NoProcess \<rparr> =
     \<lparr> st_processes = [\<lparr>row_pid = ''P1'', row_arrival = Blank, row_burst = Blank\<rparr>,
                       \<lparr>row_pid = ''P2'', row_arrival = Num 1, row_burst = Num 2\<rparr>],
       st_results = Some [\<lparr>pid = ''P2'', arrival = 1, burst = 2, completion = 3,
                           waiting = 0, turnaround = 2\<rparr>],
       st_timeline = Some [''IDLE'', ''P2'', ''P2''], st_error = None \<rparr> \<and>
   simulate lex_compare
     \<lparr> st_processes = [\<lparr>row_pid = ''P1'', row_arrival = Blank, row_burst = Blank\<rparr>,
                       \<lparr>row_pid = ''P2'', row_arrival = Blank, row_burst = Blank\<rparr>],
       st_results = None, st_timeline = None, st_error = None \<rparr> =
     \<lparr> st_processes = [\<lparr>row_pid = ''P1'', row_arrival = Blank, row_burst = Blank\<rparr>,
                       \<lparr>row_pid = ''P2'', row_arrival = Blank, row_burst = Blank\<rparr>],
       st_results = None, st_timeline = None, st_error = Some NoProcess \<rparr>"
proof -
  have p1: "trim ''P1'' \<noteq> []" by (simp add: trim_def is_space_def)
  have p2: "trim ''P2'' \<noteq> []" by (simp add: trim_def is_space_def)
  note d = simulate_all_or_nothing [of
      "\<lparr>row_pid = ''P1'', row_arrival = Num 5, row_burst = Blank\<rparr>" "[]" "[]" "[]" lex_compare
      "\<lparr> st_processes = [\<lparr>row_pid = ''P1'', row_arrival = Num 5, row_burst = Blank\<rparr>],
         st_results = None, st_timeline = None, st_error = None \<rparr>"]
  note k = simulate_all_or_nothing [of
      "\<lparr>row_pid = ''P1'', row_arrival = Blank, row_burst = Blank\<rparr>" "[]"
      "[\<lparr>row_pid = ''P2'', row_arrival = Num 1, row_burst = Num 2\<rparr>]" "[]" lex_compare
      "\<lparr> st_processes = [], st_results = None, st_timeline = None,
         st_error = Some NoProcess \<rparr>"]
  note e = simulate_all_or_nothing [of
      "\<lparr>row_pid = ''P1'', row_arrival = Blank, row_burst = Blank\<rparr>" "[]"
      "[\<lparr>row_pid = ''P2'', row_arrival = Blank, row_burst = Blank\<rparr>]" "[]" lex_compare
      "\<lparr> st_processes = [\<lparr>row_pid = ''P1'', row_arrival = Blank, row_burst = Blank\<rparr>,
                          \<lparr>row_pid = ''P2'', row_arrival = Blank, row_burst = Blank\<rparr>],
         st_results = None, st_timeline = None, st_error = None \<rparr>"]
  have a: "simulate lex_compare
     \<lparr> st_processes = [\<lparr>row_pid = ''P1'', row_arrival = Num 5, row_burst = Blank\<rparr>],
       st_results = None, st_timeline = None, st_error = None \<rparr> =
     \<lparr> st_processes = [\<lparr>row_pid = ''P1'', row_arrival = Num 5, row_burst = Blank\<rparr>],
       st_results = None, st_timeline = None, st_error = Some (Incomplete ''P1'') \<rparr>"
    using d p1 by simp
  have b: "simulate lex_compare
     \<lparr> st_processes = [\<lparr>row_pid = ''P1'', row_arrival = Blank, row_burst = Blank\<rparr>,
                       \<lparr>row_pid = ''P2'', row_arrival = Num 1, row_burst = Num 2\<rparr>],
       st_results = None, st_timeline = None, st_error = Some NoProcess \<rparr> =
     (simulate lex_compare
     \<lparr> st_processes = [\<lparr>row_pid = ''P2'', row_arrival = Num 1, row_burst = Num 2\<rparr>],
       st_results = None, st_timeline = None, st_error = Some NoProcess \<rparr>)
     \<lparr> st_processes := [\<lparr>row_pid = ''P1'', row_arrival = Blank, row_burst = Blank\<rparr>,
                        \<lparr>row_pid = ''P2'', row_arrival = Num 1, row_burst = Num 2\<rparr>] \<rparr>"
    using k p1 by simp
  have c: "simulate lex_compare
     \<lparr> st_processes = [\<lparr>row_pid = ''P2'', row_arrival = Num 1, row_burst = Num 2\<rparr>],
       st_results = None, st_timeline = None, st_error = Some NoProcess \<rparr> =
     \<lparr> st_processes = [\<lparr>row_pid = ''P2'', row_arrival = Num 1, row_burst = Num 2\<rparr>],
       st_results = Some [\<lparr>pid = ''P2'', arrival = 1, burst = 2, completion = 3,
                           waiting = 0, turnaround = 2\<rparr>],
       st_timeline = Some [''IDLE'', ''P2'', ''P2''], st_error = None \<rparr>"
    using p2
    by (simp add: simulate_def MAX_TIME_UNIT_def Let_def fcfs_def sorted_procs_def
        fcfs_init_def fcfs_step_def push_loop_eq IDLE_def eval_nat_numeral)
  have f: "simulate lex_compare
     \<lparr> st_processes = [\<lparr>row_pid = ''P1'', row_arrival = Blank, row_burst = Blank\<rparr>,
                       \<lparr>row_pid = ''P2'', row_arrival = Blank, row_burst = Blank\<rparr>],
       st_results = None, st_timeline = None, st_error = None \<rparr> =
     \<lparr> st_processes = [\<lparr>row_pid = ''P1'', row_arrival = Blank, row_burst = Blank\<rparr>,
                       \<lparr>row_pid = ''P2'', row_arrival = Blank, row_burst = Blank\<rparr>],
       st_results = None, st_timeline = None, st_error = Some NoProcess \<rparr>"
  proof -
    have v: "validate [\<lparr>row_pid = ''P1'', row_arrival = Blank, row_burst = Blank\<rparr>,
                       \<lparr>row_pid = ''P2'', row_arrival = Blank, row_burst = Blank\<rparr>] [] = Inr []"
      using p1 p2 by simp
    from e [THEN conjunct2, THEN conjunct2, THEN conjunct2, THEN conjunct2, THEN conjunct2,
        THEN conjunct1] v
    show ?thesis by simp
  qed
  show ?thesis
    using a b c f p1 by simp
qed

subsection \<open>What a call of \<open>fcfs\<close> leaves unchanged\<close>

lemma alloc_prefix:
  assumes "alloc h c = (h', a)"
  shows "prefix h h'" and "a = length h" and "length h' = Suc (length h)"
  using assms by (auto simp: alloc_def)

lemma write_prefix:
  assumes "prefix h0 h" and "length h0 \<le> a"
  shows "prefix h0 (write_cell h a c)"
proof -
  from assms(1) obtain zs where "h = h0 @ zs" by (auto simp: prefix_def)
  with assms(2) show ?thesis by (simp add: write_cell_def list_update_append)
qed

lemma length_write_cell: "length (write_cell h a c) = length h"
  by (simp add: write_cell_def)

lemma copy_elements_prefix:
  "copy_elements h as = Some (h1, bs) \<Longrightarrow> prefix h h1"
proof (induction as arbitrary: h h1 bs)
  case Nil
  then show ?case by simp
next
  case (Cons a as)
  from Cons.prems obtain p h2 bs' where
    "read_proc h a = Some p" and c: "copy_elements (h @ [Proc p]) as = Some (h2, bs')"
    and "h1 = h2"
    by (auto simp: alloc_def split: option.splits)
  from Cons.IH [OF c] have "prefix (h @ [Proc p]) h2" .
  then have "prefix h h2" by (rule append_prefixD)
  with \<open>h1 = h2\<close> show ?case by simp
qed

lemma map_copy_prefix:
  assumes "map_copy h arr = Some (h1, procs)"
  shows "prefix h h1" and "length h \<le> procs" and "procs < length h1"
proof -
  from assms obtain as h0 bs where c: "copy_elements h as = Some (h0, bs)"
    and a: "alloc h0 (Refs bs) = (h1, procs)"
    by (auto simp: map_copy_def split: option.splits cell.splits)
  from copy_elements_prefix [OF c] have p: "prefix h h0" .
  from alloc_prefix [OF a] p show "prefix h h1" by (meson prefix_order.order_trans)
  from alloc_prefix [OF a] p show "length h \<le> procs" by (simp add: prefix_length_le)
  from alloc_prefix [OF a] show "procs < length h1" by simp
qed

lemma sort_in_place_prefix:
  assumes "sort_in_place lc h1 procs = Some h2" and "prefix h h1" and "length h \<le> procs"
  shows "prefix h h2" and "length h2 = length h1"
  using assms
  by (auto simp: sort_in_place_def length_write_cell write_prefix
      split: option.splits cell.splits)

lemma store_step_prefix:
  assumes "store_step t d (h, c) cur = Some (h', c')"
    and "prefix h0 h" and "length h0 \<le> t" and "length h0 \<le> d"
  shows "prefix h0 h'"
proof -
  from assms(1) obtain units rs r where
    h': "h' = write_cell (write_cell h t (Units units) @ [Result r]) d (Refs rs)"
    by (auto simp: store_step_def Let_def alloc_def split: option.splits cell.splits)
  have "prefix h0 (write_cell h t (Units units))"
    using assms(2,3) by (rule write_prefix)
  then have "prefix h0 (write_cell h t (Units units) @ [Result r])"
    by (rule prefix_prefix)
  then show ?thesis unfolding h' using assms(4) by (rule write_prefix)
qed

lemma store_loop_prefix:
  assumes "store_loop t d st cs = Some st'"
    and "prefix h0 (fst st)" and "length h0 \<le> t" and "length h0 \<le> d"
  shows "prefix h0 (fst st')"
  using assms(1,2)
proof (induction cs arbitrary: st)
  case Nil
  then show ?case by simp
next
  case (Cons cur cs)
  from Cons.prems(1) obtain st1 where s: "store_step t d st cur = Some st1"
    and l: "store_loop t d st1 cs = Some st'"
    by (auto split: option.splits)
  from store_step_prefix [of t d "fst st" "snd st" cur "fst st1" "snd st1" h0]
    s Cons.prems(2) assms(3,4)
  have "prefix h0 (fst st1)" by simp
  from Cons.IH [OF l this] show ?case .
qed

lemma fcfs_store_prefix:
  assumes "fcfs_store lc h processes = Some (h', out)"
  shows "prefix h h'"
proof -
  from assms obtain h1 procs h2 cs h5 clock where
    m: "map_copy h processes = Some (h1, procs)"
    and s: "sort_in_place lc h1 procs = Some h2"
    and l: "store_loop (Suc (length h2)) (length h2)
              ((h2 @ [Refs []]) @ [Units []], 0) cs = Some (h5, clock)"
    and o: "h' = h5 @ [Out (Suc (length h2)) (length h2)]"
    by (auto simp: fcfs_store_def alloc_def split: option.splits cell.splits prod.splits)
  from map_copy_prefix [OF m] have p1: "prefix h h1" and b: "length h \<le> procs" by simp_all
  from sort_in_place_prefix(1) [OF s p1 b] have p2: "prefix h h2" .
  then have le: "length h \<le> length h2" by (rule prefix_length_le)
  from p2 have p4: "prefix h ((h2 @ [Refs []]) @ [Units []])"
    by (simp add: prefix_prefix)
  from store_loop_prefix [OF l, of h] p4 le have "prefix h h5" by simp
  then show ?thesis unfolding o by (rule prefix_prefix)
qed

subsection \<open>The store model computes what \<open>fcfs\<close> computes\<close>

lemma read_cell_SomeD: "read_cell h a = Some c \<Longrightarrow> a < length h \<and> h ! a = c"
  by (simp add: read_cell_def split: if_splits)

lemma read_cell_append: "read_cell h a = Some c \<Longrightarrow> read_cell (h @ zs) a = Some c"
  by (simp add: read_cell_def nth_append split: if_splits)

lemma read_cell_new: "read_cell (h @ c # zs) (length h) = Some c"
  by (simp add: read_cell_def)

lemma read_cell_write_same: "a < length h \<Longrightarrow> read_cell (write_cell h a c) a = Some c"
  by (simp add: read_cell_def write_cell_def)

lemma read_cell_write_other: "a \<noteq> b \<Longrightarrow> read_cell (write_cell h a c) b = read_cell h b"
  by (simp add: read_cell_def write_cell_def)

lemma read_proc_Some: "(read_proc h a = Some p) = (read_cell h a = Some (Proc p))"
  by (simp add: read_proc_def split: option.splits cell.splits)

lemma read_proc_append: "read_proc h a = Some p \<Longrightarrow> read_proc (h @ zs) a = Some p"
  by (simp add: read_proc_Some read_cell_append)

lemma map_read_proc_append:
  "map (read_proc h) as = map Some ps \<Longrightarrow> map (read_proc (h @ zs)) as = map Some ps"
proof (induction as arbitrary: ps)
  case Nil
  then show ?case by simp
next
  case (Cons a as)
  then show ?case by (cases ps) (auto simp: read_proc_append)
qed

lemma copy_elements_result:
  "map (read_proc h) as = map Some ps \<Longrightarrow>
   \<exists>bs. copy_elements h as = Some (h @ map Proc ps, bs) \<and>
        (\<forall>zs. map (read_proc (h @ map Proc ps @ zs)) bs = map Some ps)"
proof (induction as arbitrary: h ps)
  case Nil
  then show ?case by simp
next
  case (Cons a as)
  then obtain p ps' where ps: "ps = p # ps'" and a: "read_proc h a = Some p"
    and r: "map (read_proc h) as = map Some ps'"
    by (cases ps) auto
  from Cons.IH [OF map_read_proc_append [OF r, of "[Proc p]"]]
  obtain bs where c: "copy_elements (h @ [Proc p]) as = Some ((h @ [Proc p]) @ map Proc ps', bs)"
    and rd: "\<forall>zs. map (read_proc ((h @ [Proc p]) @ map Proc ps' @ zs)) bs = map Some ps'"
    by blast
  have "copy_elements h (a # as) = Some (h @ map Proc ps, length h # bs)"
    using a c by (simp add: ps alloc_def)
  moreover have "map (read_proc (h @ map Proc ps @ zs)) (length h # bs) = map Some ps" for zs
    using rd [rule_format, of zs] by (simp add: ps read_proc_Some read_cell_new)
  ultimately show ?case by blast
qed

lemma read_procs_result:
  "map (read_proc h) as = map Some ps \<Longrightarrow> read_procs h as = Some (zip as ps)"
proof (induction as arbitrary: ps)
  case Nil
  then show ?case by simp
next
  case (Cons a as)
  then show ?case by (cases ps) auto
qed

lemma insert_by_map:
  "map f (insert_by (\<lambda>x y. c (f x) (f y)) x xs) = insert_by c (f x) (map f xs)"
  by (induction xs) auto

lemma js_sort_map:
  "map f (js_sort (\<lambda>x y. c (f x) (f y)) xs) = js_sort c (map f xs)"
  by (induction xs) (auto simp: insert_by_map)


lemma map_read_proc_cell:
  "(map (read_proc h) as = map Some ps) = (map (read_cell h) as = map Some (map Proc ps))"
proof (induction as arbitrary: ps)
  case Nil
  then show ?case by auto
next
  case (Cons a as)
  then show ?case by (cases ps) (auto simp: read_proc_Some)
qed

lemma map_read_cell_keep:
  assumes "map (read_cell h) xs = map Some cs"
    and "\<And>x c. x \<in> set xs \<Longrightarrow> read_cell h x = Some c \<Longrightarrow> read_cell h2 x = Some c"
  shows "map (read_cell h2) xs = map Some cs"
  using assms
proof (induction xs arbitrary: cs)
  case Nil
  then show ?case by simp
next
  case (Cons x xs)
  then show ?case by (cases cs) auto
qed

lemma map_read_cell_mem:
  assumes "map (read_cell h) xs = map Some (map f ys)" and "x \<in> set xs"
  shows "\<exists>y. read_cell h x = Some (f y)"
proof -
  from assms(2) obtain i where i: "i < length xs" "xs ! i = x"
    by (auto simp: in_set_conv_nth)
  from assms(1) have l: "length xs = length ys" by (metis length_map)
  from assms(1) have "map (read_cell h) xs ! i = map Some (map f ys) ! i" by simp
  with i l show ?thesis by auto
qed

lemma store_step_result:
  assumes "read_proc h cur = Some q"
    and "read_cell h t = Some (Units (timeline s))"
    and "read_cell h d = Some (Refs rs)"
    and "t \<noteq> d"
  shows "store_step t d (h, time s) cur =
     Some (write_cell
             (write_cell h t (Units (timeline (fcfs_step s q))) @
                [Result (last (done_acc (fcfs_step s q)))])
             d (Refs (rs @ [length h])),
           time (fcfs_step s q))"
proof -
  from assms(2,3) have "t < length h" "d < length h" "h ! d = Refs rs"
    by (auto dest: read_cell_SomeD)
  with assms show ?thesis
    by (simp add: store_step_def fcfs_step_def Let_def alloc_def read_cell_def write_cell_def
        nth_append)
qed

lemma store_loop_refines:
  assumes "map (read_proc h) cs = map Some qs"
    and "read_cell h t = Some (Units (timeline s))"
    and "read_cell h d = Some (Refs rs)"
    and "map (read_cell h) rs = map Some (map Result (done_acc s))"
    and "t \<noteq> d"
  shows "\<exists>h' rs'. store_loop t d (h, time s) cs = Some (h', time (foldl fcfs_step s qs)) \<and>
           read_cell h' t = Some (Units (timeline (foldl fcfs_step s qs))) \<and>
           read_cell h' d = Some (Refs rs') \<and>
           map (read_cell h') rs' = map Some (map Result (done_acc (foldl fcfs_step s qs)))"
  using assms(1-4)
proof (induction cs arbitrary: h s rs qs)
  case Nil
  then show ?case by auto
next
  case (Cons cur cs)
  from Cons.prems(1) obtain q qs' where qs: "qs = q # qs'" and q: "read_proc h cur = Some q"
    and rest: "map (read_proc h) cs = map Some qs'"
    by (cases qs) auto
  let ?s = "fcfs_step s q"
  let ?r = "last (done_acc ?s)"
  let ?h1 = "write_cell h t (Units (timeline ?s)) @ [Result ?r]"
  let ?h = "write_cell ?h1 d (Refs (rs @ [length h]))"
  from Cons.prems(2,3) have tl: "t < length h" and dl: "d < length h"
    by (auto dest: read_cell_SomeD)
  have step: "store_step t d (h, time s) cur = Some (?h, time ?s)"
    by (rule store_step_result [OF q Cons.prems(2,3) assms(5)])
  have keep: "read_cell ?h x = Some c" if "read_cell h x = Some c" "x \<noteq> t" "x \<noteq> d" for x c
    using that by (auto simp: read_cell_def write_cell_def nth_append split: if_splits)
  have t': "read_cell ?h t = Some (Units (timeline ?s))"
    using tl assms(5) by (simp add: read_cell_def write_cell_def nth_append)
  have d': "read_cell ?h d = Some (Refs (rs @ [length h]))"
    using dl by (simp add: read_cell_def write_cell_def)
  have new: "read_cell ?h (length h) = Some (Result ?r)"
    using dl by (simp add: read_cell_def write_cell_def nth_append)
  have procs: "map (read_proc ?h) cs = map Some qs'"
    unfolding map_read_proc_cell
  proof (rule map_read_cell_keep)
    show "map (read_cell h) cs = map Some (map Proc qs')"
      using rest by (simp add: map_read_proc_cell)
  next
    fix x c
    assume x: "x \<in> set cs" and c: "read_cell h x = Some c"
    from map_read_cell_mem [OF rest [unfolded map_read_proc_cell] x] c
    obtain y where "c = Proc y" by auto
    with c Cons.prems(2,3) have "x \<noteq> t" "x \<noteq> d" by auto
    with c show "read_cell ?h x = Some c" by (rule keep)
  qed
  have old: "map (read_cell ?h) rs = map Some (map Result (done_acc s))"
  proof (rule map_read_cell_keep [OF Cons.prems(4)])
    fix x c
    assume x: "x \<in> set rs" and c: "read_cell h x = Some c"
    from map_read_cell_mem [OF Cons.prems(4) x] c
    obtain y where "c = Result y" by auto
    with c Cons.prems(2,3) have "x \<noteq> t" "x \<noteq> d" by auto
    with c show "read_cell ?h x = Some c" by (rule keep)
  qed
  have dn: "done_acc ?s = done_acc s @ [?r]" by (simp add: step_done)
  have results: "map (read_cell ?h) (rs @ [length h]) = map Some (map Result (done_acc ?s))"
    using old new by (subst dn) simp
  from Cons.IH [OF procs t' d' results]
  obtain h' rs' where
    "store_loop t d (?h, time ?s) cs = Some (h', time (foldl fcfs_step ?s qs'))"
    "read_cell h' t = Some (Units (timeline (foldl fcfs_step ?s qs')))"
    "read_cell h' d = Some (Refs rs')"
    "map (read_cell h') rs' = map Some (map Result (done_acc (foldl fcfs_step ?s qs')))"
    by blast
  with step show ?case by (auto simp: qs)
qed


lemma read_pairs:
  "\<forall>(b, p) \<in> set xs. read_proc h b = Some p \<Longrightarrow>
   map (read_proc h) (map fst xs) = map Some (map snd xs)"
  by (induction xs) auto

lemma zip_read:
  assumes "map (read_proc h) bs = map Some ps"
  shows "\<forall>(b, p) \<in> set (zip bs ps). read_proc h b = Some p"
proof -
  from assms have l: "length bs = length ps" by (metis length_map)
  have "read_proc h (bs ! i) = Some (ps ! i)" if "i < length bs" for i
  proof -
    from assms have "map (read_proc h) bs ! i = map Some ps ! i" by simp
    with that l show ?thesis by simp
  qed
  then show ?thesis by (auto simp: set_zip)
qed

lemma fcfs_store_refines:
  assumes arr: "read_cell h processes = Some (Refs as)"
    and elems: "map (read_proc h) as = map Some ps"
  shows "\<exists>h' out t d rs. fcfs_store lc h processes = Some (h', out) \<and>
           read_cell h' out = Some (Out t d) \<and>
           read_cell h' t = Some (Units (out_timeline (fcfs lc ps))) \<and>
           read_cell h' d = Some (Refs rs) \<and>
           map (read_cell h') rs = map Some (map Result (out_results (fcfs lc ps)))"
proof -
  from copy_elements_result [OF elems] obtain bs where
    copy: "copy_elements h as = Some (h @ map Proc ps, bs)"
    and rd: "\<forall>zs. map (read_proc (h @ map Proc ps @ zs)) bs = map Some ps"
    by blast
  let ?procs = "length (h @ map Proc ps)"
  let ?h1 = "(h @ map Proc ps) @ [Refs bs]"
  have mc: "map_copy h processes = Some (?h1, ?procs)"
    using arr copy by (simp add: map_copy_def alloc_def)
  have rd1: "map (read_proc ?h1) bs = map Some ps"
    using rd [rule_format, of "[Refs bs]"] by simp
  let ?sorted = "js_sort (\<lambda>x y. compare_procs lc (snd x) (snd y)) (zip bs ps)"
  let ?cs = "map fst ?sorted"
  let ?h2 = "write_cell ?h1 ?procs (Refs ?cs)"
  have cell1: "read_cell ?h1 ?procs = Some (Refs bs)"
    by (simp add: read_cell_def nth_append)
  have sp: "sort_in_place lc ?h1 ?procs = Some ?h2"
    using cell1 read_procs_result [OF rd1] by (simp add: sort_in_place_def)
  from rd1 have lbs: "length bs = length ps" by (metis length_map)
  have "map snd ?sorted = js_sort (compare_procs lc) (map snd (zip bs ps))"
    by (rule js_sort_map)
  with lbs have snd_sorted: "map snd ?sorted = sorted_procs lc ps"
    by (simp add: sorted_procs_def)
  have "\<forall>(b, p) \<in> set ?sorted. read_proc ?h1 b = Some p"
    using zip_read [OF rd1] by (simp add: set_js_sort)
  from read_pairs [OF this] snd_sorted
  have cs1: "map (read_proc ?h1) ?cs = map Some (sorted_procs lc ps)" by simp
  let ?d = "length ?h2" and ?t = "Suc (length ?h2)"
  let ?h4 = "(?h2 @ [Refs []]) @ [Units []]"
  have cs4: "map (read_proc ?h4) ?cs = map Some (sorted_procs lc ps)"
    unfolding map_read_proc_cell
  proof (rule map_read_cell_keep)
    show "map (read_cell ?h1) ?cs = map Some (map Proc (sorted_procs lc ps))"
      using cs1 by (simp only: map_read_proc_cell)
  next
    fix x c
    assume x: "x \<in> set ?cs" and c: "read_cell ?h1 x = Some c"
    from map_read_cell_mem [OF cs1 [unfolded map_read_proc_cell] x] c
    obtain y where "c = Proc y" by auto
    with c cell1 have "x \<noteq> ?procs" by auto
    with c have "read_cell ?h2 x = Some c" by (simp add: read_cell_write_other)
    then show "read_cell ?h4 x = Some c" by (simp add: read_cell_append)
  qed
  have procs4: "read_cell ?h4 ?procs = Some (Refs ?cs)"
    by (simp add: read_cell_def write_cell_def nth_append)
  have t4: "read_cell ?h4 ?t = Some (Units (timeline fcfs_init))"
    by (simp add: read_cell_def fcfs_init_def nth_append length_write_cell)
  have d4: "read_cell ?h4 ?d = Some (Refs [])"
    by (simp add: read_cell_def nth_append length_write_cell)
  have r4: "map (read_cell ?h4) [] = map Some (map Result (done_acc fcfs_init))"
    by (simp add: fcfs_init_def)
  from store_loop_refines [OF cs4 t4 d4 r4]
  obtain h5 rs where
    loop: "store_loop ?t ?d (?h4, time fcfs_init) ?cs =
             Some (h5, time (foldl fcfs_step fcfs_init (sorted_procs lc ps)))"
    and t5: "read_cell h5 ?t = Some (Units (timeline (foldl fcfs_step fcfs_init (sorted_procs lc ps))))"
    and d5: "read_cell h5 ?d = Some (Refs rs)"
    and r5: "map (read_cell h5) rs =
               map Some (map Result (done_acc (foldl fcfs_step fcfs_init (sorted_procs lc ps))))"
    by auto
  let ?h' = "h5 @ [Out ?t ?d]"
  have call: "fcfs_store lc h processes = Some (?h', length h5)"
    using mc sp procs4 loop
    by (simp add: fcfs_store_def alloc_def fcfs_init_def)
  have "read_cell ?h' (length h5) = Some (Out ?t ?d)" by (simp add: read_cell_def)
  moreover have "read_cell ?h' ?t = Some (Units (out_timeline (fcfs lc ps)))"
    using t5 by (simp add: read_cell_append fcfs_unfold)
  moreover have "read_cell ?h' ?d = Some (Refs rs)"
    using d5 by (simp add: read_cell_append)
  moreover have "map (read_cell ?h') rs = map Some (map Result (out_results (fcfs lc ps)))"
    unfolding fcfs_unfold
    by (rule map_read_cell_keep [OF r5]) (simp add: read_cell_append)
  ultimately show ?thesis using call by blast
qed

lemma store_scenario_C:
  "fcfs_store lex_compare
     [Refs [1, 2], Proc \<lparr>pid = ''P2'', arrival = 0, burst = 2\<rparr>,
      Proc \<lparr>pid = ''P1'', arrival = 0, burst = 2\<rparr>] 0 =
   Some
     ([Refs [1, 2], Proc \<lparr>pid = ''P2'', arrival = 0, burst = 2\<rparr>,
       Proc \<lparr>pid = ''P1'', arrival = 0, burst = 2\<rparr>,
       Proc \<lparr>pid = ''P2'', arrival = 0, burst = 2\<rparr>,
       Proc \<lparr>pid = ''P1'', arrival = 0, burst = 2\<rparr>, Refs [4, 3], Refs [8, 9],
       Units [''P1'', ''P1'', ''P2'', ''P2''],
       Result \<lparr>pid = ''P1'', arrival = 0, burst = 2, completion = 2, waiting = 0,
                turnaround = 2\<rparr>,
       Result \<lparr>pid = ''P2'', arrival = 0, burst = 2, completion = 4, waiting = 2,
                turnaround = 4\<rparr>,
       Out 7 6],
      10)"
  by code_simp

text \<open>
  C10. \<open>fcfs\<close> never mutates its argument. Whenever a call returns, every cell that the
  store held before the call is unchanged after it: the array \<open>processes\<close> holds the
  same elements and every process object has the same \<open>pid\<close>, \<open>arrival\<close> and \<open>burst\<close>;
  the sorted array and everything else the call writes are new cells. And for every
  input list (an array of process objects) the call does return, with the list and
  the fields of each of its elements as they were.
\<close>

theorem fcfs_leaves_argument_unchanged:
  "(fcfs_store localeCompare h processes = Some (h', out) \<longrightarrow>
      length h \<le> length h' \<and>
      (\<forall>a < length h. h' ! a = h ! a) \<and>
      read_cell h' processes = read_cell h processes \<and>
      (\<forall>a p. read_proc h a = Some p \<longrightarrow> read_proc h' a = Some p)) \<and>
   (read_cell h processes = Some (Refs as) \<and> map (read_proc h) as = map Some ps \<longrightarrow>
      (\<exists>h2 out2. fcfs_store localeCompare h processes = Some (h2, out2) \<and>
         read_cell h2 processes = Some (Refs as) \<and>
         map (read_proc h2) as = map Some ps))"
proof (intro conjI impI)
  assume call: "fcfs_store localeCompare h processes = Some (h', out)"
  from fcfs_store_prefix [OF call] obtain zs where h': "h' = h @ zs"
    by (auto simp: prefix_def)
  from call have ok: "processes < length h"
    by (auto simp: fcfs_store_def map_copy_def read_cell_def split: option.splits if_splits)
  show "length h \<le> length h'" by (simp add: h')
  show "\<forall>a < length h. h' ! a = h ! a" by (simp add: h' nth_append)
  show "read_cell h' processes = read_cell h processes"
    using ok by (simp add: h' read_cell_def nth_append)
  show "\<forall>a p. read_proc h a = Some p \<longrightarrow> read_proc h' a = Some p"
    by (simp add: h' read_proc_append)
next
  assume wf: "read_cell h processes = Some (Refs as) \<and> map (read_proc h) as = map Some ps"
  from fcfs_store_refines [of h processes as ps localeCompare] wf
  obtain h2 out2 where call: "fcfs_store localeCompare h processes = Some (h2, out2)"
    by blast
  from fcfs_store_prefix [OF call] obtain zs where h2: "h2 = h @ zs"
    by (auto simp: prefix_def)
  have "read_cell h2 processes = Some (Refs as)"
    using wf by (simp add: h2 read_cell_append)
  moreover have "map (read_proc h2) as = map Some ps"
    using wf by (simp add: h2 map_read_proc_append)
  ultimately show "\<exists>h2 out2. fcfs_store localeCompare h processes = Some (h2, out2) \<and>
         read_cell h2 processes = Some (Refs as) \<and>
         map (read_proc h2) as = map Some ps"
    using call by blast
qed

theorem fcfs_leaves_argument_unchanged_witness:
  "fcfs_store lex_compare
     [Refs [1, 2], Proc \<lparr>pid = ''P2'', arrival = 0, burst = 2\<rparr>,
      Proc \<lparr>pid = ''P1'', arrival = 0, burst = 2\<rparr>] 0 =
   Some
     ([Refs [1, 2], Proc \<lparr>pid = ''P2'', arrival = 0, burst = 2\<rparr>,
       Proc \<lparr>pid = ''P1'', arrival = 0, burst = 2\<rparr>,
       Proc \<lparr>pid = ''P2'', arrival = 0, burst = 2\<rparr>,
       Proc \<lparr>pid = ''P1'', arrival = 0, burst = 2\<rparr>, Refs [4, 3], Refs [8, 9],
       Units [''P1'', ''P1'', ''P2'', ''P2''],
       Result \<lparr>pid = ''P1'', arrival = 0, burst = 2, completion = 2, waiting = 0,
                turnaround = 2\<rparr>,
       Result \<lparr>pid = ''P2'', arrival = 0, burst = 2, completion = 4, waiting = 2,
                turnaround = 4\<rparr>,
       Out 7 6],
      10) \<and>
   read_cell
     [Refs [1, 2], Proc \<lparr>pid = ''P2'', arrival = 0, burst = 2\<rparr>,
       Proc \<lparr>pid = ''P1'', arrival = 0, burst = 2\<rparr>,
       Proc \<lparr>pid = ''P2'', arrival = 0, burst = 2\<rparr>,
       Proc \<lparr>pid = ''P1'', arrival = 0, burst = 2\<rparr>, Refs [4, 3], Refs [8, 9],
       Units [''P1'', ''P1'', ''P2'', ''P2''],
       Result \<lparr>pid = ''P1'', arrival = 0, burst = 2, completion = 2, waiting = 0,
                turnaround = 2\<rparr>,
       Result \<lparr>pid = ''P2'', arrival = 0, burst = 2, completion = 4, waiting = 2,
                turnaround = 4\<rparr>,
       Out 7 6] 0 =
   read_cell
     [Refs [1, 2], Proc \<lparr>pid = ''P2'', arrival = 0, burst = 2\<rparr>,
      Proc \<lparr>pid = ''P1'', arrival = 0, burst = 2\<rparr>] 0 \<and>
   read_cell
     [Refs [1, 2], Proc \<lparr>pid = ''P2'', arrival = 0, burst = 2\<rparr>,
      Proc \<lparr>pid = ''P1'', arrival = 0, burst = 2\<rparr>] 0 = Some (Refs [1, 2]) \<and>
   map (read_proc
     [Refs [1, 2], Proc \<lparr>pid = ''P2'', arrival = 0, burst = 2\<rparr>,
      Proc \<lparr>pid = ''P1'', arrival = 0, burst = 2\<rparr>]) [1, 2] =
     map Some [\<lparr>pid = ''P2'', arrival = 0, burst = 2\<rparr>, \<lparr>pid = ''P1'', arrival = 0, burst = 2\<rparr>]"
proof -
  note t = fcfs_leaves_argument_unchanged [of lex_compare
     "[Refs [1, 2], Proc \<lparr>pid = ''P2'', arrival = 0, burst = 2\<rparr>,
       Proc \<lparr>pid = ''P1'', arrival = 0, burst = 2\<rparr>]" 0 _ 10, THEN conjunct1, THEN mp,
     OF store_scenario_C, THEN conjunct2, THEN conjunct2, THEN conjunct1]
  show ?thesis
  proof (intro conjI)
    show "map (read_proc
     [Refs [1, 2], Proc \<lparr>pid = ''P2'', arrival = 0, burst = 2\<rparr>,
      Proc \<lparr>pid = ''P1'', arrival = 0, burst = 2\<rparr>]) [1, 2] =
     map Some [\<lparr>pid = ''P2'', arrival = 0, burst = 2\<rparr>, \<lparr>pid = ''P1'', arrival = 0, burst = 2\<rparr>]"
      by (simp add: read_cell_def read_proc_def)
  qed (rule store_scenario_C, rule t, simp add: read_cell_def)
qed

end
